theory Spec2Isabelle
  imports Complex_Main "HOL-Library.AList" "HOL-Library.Multiset"
begin

section \<open>Data model (src/index.ts, lines 3-29)\<close>

text \<open>
  A tag is what \<^verbatim>\<open>readPhoto\<close> stores from \<^verbatim>\<open>parts[i+2]\<close>: a string, or
  \<^verbatim>\<open>undefined\<close> when the line has fewer tokens than its declared tag count.
  \<open>None\<close> stands for \<^verbatim>\<open>undefined\<close>.  Photo ids, array lengths and scores are
  integers, on which JavaScript's binary64 arithmetic is exact below \<open>2^53\<close>; they are
  \<open>nat\<close> and \<open>int\<close> here.  The tag count of a line is whatever \<^verbatim>\<open>parseFloat\<close>
  returns and is modelled as a binary64 number (\<open>jsnum\<close> below).
\<close>

type_synonym tag = "string option"

record TagEntry =
  tag :: tag
  photoIds :: "nat list"

text \<open>The field \<^verbatim>\<open>id\<close> of the source is named \<open>photo_id\<close> here.\<close>

record Photo =
  photo_id :: nat
  orientation :: string
  tags :: "tag list"
  tagScore :: int

record Slide =
  photos :: "Photo list"
  tags :: "tag list"

text \<open>
  Reading \<^verbatim>\<open>undefined.tags\<close> raises a \<^verbatim>\<open>TypeError\<close>; it is the only exception
  the modelled functions could raise.
\<close>

datatype error = TypeError

section \<open>JavaScript built-ins used by the scorer\<close>

text \<open>\<^verbatim>\<open>xs[i]\<close>: the element, or \<^verbatim>\<open>undefined\<close> out of range.\<close>

definition lookup :: "'a list \<Rightarrow> nat \<Rightarrow> 'a option" where
  "lookup xs i = (if i < length xs then Some (xs ! i) else None)"

text \<open>\<^verbatim>\<open>Array.prototype.includes\<close> on strings and \<^verbatim>\<open>undefined\<close>: equality.\<close>

primrec array_includes :: "'a list \<Rightarrow> 'a \<Rightarrow> bool" where
  "array_includes [] x = False"
| "array_includes (y # ys) x = (y = x \<or> array_includes ys x)"

section \<open>Adjacency scorer (src/index.ts, lines 117-161)\<close>

text \<open>
  \<^verbatim>\<open>compareSlides\<close> runs three counting loops, each a \<open>fold\<close> over the tag array it
  iterates, and returns \<^verbatim>\<open>Math.min\<close> of the three counters.
\<close>

definition compareSlides :: "Slide \<Rightarrow> Slide \<Rightarrow> int" where
  "compareSlides slide1 slide2 =
     (let commonTags =
            fold (\<lambda>tag n. if array_includes (Slide.tags slide2) tag then n + 1 else n)
              (Slide.tags slide1) 0;
          uncommonLeftTags =
            fold (\<lambda>tag n. if \<not> array_includes (Slide.tags slide2) tag then n + 1 else n)
              (Slide.tags slide1) 0;
          uncommonRightTags =
            fold (\<lambda>tag n. if \<not> array_includes (Slide.tags slide1) tag then n + 1 else n)
              (Slide.tags slide2) 0
      in min (min commonTags uncommonLeftTags) uncommonRightTags)"

text \<open>
  The loop of \<^verbatim>\<open>getScore\<close>, with its counter \<open>i\<close> and accumulator \<open>score\<close>.  The
  test \<^verbatim>\<open>i == slides.length - 1\<close> is on integers (the length may be 0).  Passing
  \<^verbatim>\<open>undefined\<close> to \<^verbatim>\<open>compareSlides\<close> would raise.
\<close>

function getScore_loop :: "Slide list \<Rightarrow> nat \<Rightarrow> int \<Rightarrow> error + int" where
  "getScore_loop slides i score =
     (if i < length slides then
        (if int i = int (length slides) - 1 then Inr score
         else (case lookup slides i of
                 None \<Rightarrow> Inl TypeError
               | Some slide1 \<Rightarrow>
                   (case lookup slides (i + 1) of
                      None \<Rightarrow> Inl TypeError
                    | Some slide2 \<Rightarrow>
                        getScore_loop slides (i + 1) (score + compareSlides slide1 slide2))))
      else Inr score)"
  by pat_completeness auto
termination
  by (relation "measure (\<lambda>(slides, i, score). length slides - i)") auto

declare getScore_loop.simps [simp del]

record Slideshow =
  slides :: "Slide list"
  score :: int

definition getScore :: "Slideshow \<Rightarrow> error + int" where
  "getScore slideshow = getScore_loop (slides slideshow) 0 0"

section \<open>Photo ranking (src/index.ts, lines 189-204 and 251-255)\<close>

text \<open>
  \<^verbatim>\<open>Map<string, TagEntry>\<close> is an association list in insertion order, read with
  \<open>map_of\<close> and written with \<open>AList.update\<close> (an existing key keeps its place, a
  new key goes last, as \<^verbatim>\<open>Map.prototype.set\<close> does).
\<close>

type_synonym tagMap = "(tag \<times> TagEntry) list"

definition calculateTagScore :: "tagMap \<Rightarrow> Photo \<Rightarrow> int" where
  "calculateTagScore allTags photo =
     fold (\<lambda>tag score.
             (case map_of allTags tag of
                Some tagEntry \<Rightarrow> score + int (length (photoIds tagEntry))
              | None \<Rightarrow> score))
       (Photo.tags photo) 0"

text \<open>
  The comparator passed to \<^verbatim>\<open>photos.sort\<close>: it writes the \<^verbatim>\<open>tagScore\<close> of both
  photos and returns \<^verbatim>\<open>photo2.tagScore - photo1.tagScore\<close>.  The model returns the
  two updated photos with the number.
\<close>

definition comparePhotos :: "tagMap \<Rightarrow> Photo \<Rightarrow> Photo \<Rightarrow> Photo \<times> Photo \<times> int" where
  "comparePhotos allTags photo1 photo2 =
     (let photo1' = photo1\<lparr>tagScore := calculateTagScore allTags photo1\<rparr>;
          photo2' = photo2\<lparr>tagScore := calculateTagScore allTags photo2\<rparr>
      in (photo1', photo2', tagScore photo2' - tagScore photo1'))"

text \<open>
  \<^verbatim>\<open>Array.prototype.sort\<close> with a comparator.  ECMAScript (from the 2019 edition on)
  requires the sort to be stable, so with a comparator that compares by a key the
  resulting order does not depend on the engine's algorithm.  The built-in is modelled
  by a stable insertion sort that threads the comparator's writes through: an element
  is placed before the first element it does not compare greater than.  An array of
  fewer than two elements is returned without a call of the comparator.
\<close>

fun sort_insert :: "('a \<Rightarrow> 'a \<Rightarrow> 'a \<times> 'a \<times> int) \<Rightarrow> 'a \<Rightarrow> 'a list \<Rightarrow> 'a list" where
  "sort_insert cmp x [] = [x]"
| "sort_insert cmp x (y # ys) =
     (case cmp x y of
        (x', y', c) \<Rightarrow> if c \<le> 0 then x' # y' # ys else y' # sort_insert cmp x' ys)"

definition array_sort :: "('a \<Rightarrow> 'a \<Rightarrow> 'a \<times> 'a \<times> int) \<Rightarrow> 'a list \<Rightarrow> 'a list" where
  "array_sort cmp xs = foldr (sort_insert cmp) xs []"

text \<open>Lines 251-255 of \<^verbatim>\<open>solve\<close>: the ranking pass (``Photo Sort Algorithm 2'').\<close>

definition rankPhotos :: "tagMap \<Rightarrow> Photo list \<Rightarrow> Photo list" where
  "rankPhotos allTags catalog = array_sort (comparePhotos allTags) catalog"

section \<open>Slide builder and sequencing (src/index.ts, lines 163-186 and 261-298)\<close>

text \<open>
  \<^verbatim>\<open>new Set(tags)\<close> followed by \<^verbatim>\<open>Array.from(tagSet.values())\<close>: the elements in
  the order of their first insertion.
\<close>

definition set_add :: "'a list \<Rightarrow> 'a \<Rightarrow> 'a list" where
  "set_add s x = (if array_includes s x then s else s @ [x])"

definition set_from_array :: "'a list \<Rightarrow> 'a list" where
  "set_from_array xs = fold (\<lambda>x s. set_add s x) xs []"

definition createVerticalSlide :: "Photo \<Rightarrow> Photo \<Rightarrow> Slide" where
  "createVerticalSlide photo1 photo2 =
     (let tags0 = [] @ Photo.tags photo1;
          tags1 = tags0 @ Photo.tags photo2;
          tagSet = set_from_array tags1
      in \<lparr>photos = [photo1, photo2], tags = tagSet\<rparr>)"

definition createHorizontalSlide :: "Photo \<Rightarrow> Slide" where
  "createHorizontalSlide photo = \<lparr>photos = [photo], tags = Photo.tags photo\<rparr>"

text \<open>
  The pairing loop of \<^verbatim>\<open>solve\<close> (lines 278-288), with counter \<open>i\<close> (step 2) and
  the array \<open>verticalSlides\<close> built so far.  \<^verbatim>\<open>createVerticalSlide\<close> reads
  \<^verbatim>\<open>photo1.tags\<close> and \<^verbatim>\<open>photo2.tags\<close>, which raises on \<^verbatim>\<open>undefined\<close>.
\<close>

function verticalSlides_loop :: "Photo list \<Rightarrow> nat \<Rightarrow> Slide list \<Rightarrow> error + Slide list" where
  "verticalSlides_loop verticalPhotos i verticalSlides =
     (if i < length verticalPhotos then
        (if i + 1 \<ge> length verticalPhotos then Inr verticalSlides
         else (case lookup verticalPhotos i of
                 None \<Rightarrow> Inl TypeError
               | Some photo1 \<Rightarrow>
                   (case lookup verticalPhotos (i + 1) of
                      None \<Rightarrow> Inl TypeError
                    | Some photo2 \<Rightarrow>
                        verticalSlides_loop verticalPhotos (i + 2)
                          (verticalSlides @ [createVerticalSlide photo1 photo2]))))
      else Inr verticalSlides)"
  by pat_completeness auto
termination
  by (relation "measure (\<lambda>(verticalPhotos, i, verticalSlides). length verticalPhotos - i)") auto

declare verticalSlides_loop.simps [simp del]

text \<open>
  Lines 261-288 of \<^verbatim>\<open>solve\<close>: the two filters, the loop that pushes one slide
  per horizontal photo, and the pairing loop.  The result is the pair
  \<open>(horizontalSlides, verticalSlides)\<close>.
\<close>

definition buildSlides :: "Photo list \<Rightarrow> error + (Slide list \<times> Slide list)" where
  "buildSlides ranked =
     (let horizontalPhotos = filter (\<lambda>photo. orientation photo = ''H'') ranked;
          verticalPhotos = filter (\<lambda>photo. orientation photo = ''V'') ranked;
          horizontalSlides =
            fold (\<lambda>photo acc. acc @ [createHorizontalSlide photo]) horizontalPhotos []
      in (case verticalSlides_loop verticalPhotos 0 [] of
            Inl e \<Rightarrow> Inl e
          | Inr verticalSlides \<Rightarrow> Inr (horizontalSlides, verticalSlides)))"

text \<open>
  The global variables of the program.  \<^verbatim>\<open>solve\<close> reads both, replaces
  \<^verbatim>\<open>photos\<close> by the ranked array and returns the slides
  \<^verbatim>\<open>[...horizontalSlides, ...verticalSlides]\<close> (line 298, ``Slide Sort Algorithm 1'').
\<close>

record Globals =
  photos :: "Photo list"
  allTags :: tagMap

definition solve :: "Globals \<Rightarrow> error + (Slide list \<times> Globals)" where
  "solve g =
     (let ranked = rankPhotos (allTags g) (Globals.photos g)
      in (case buildSlides ranked of
            Inl e \<Rightarrow> Inl e
          | Inr (horizontalSlides, verticalSlides) \<Rightarrow>
              Inr (horizontalSlides @ verticalSlides, g\<lparr>Globals.photos := ranked\<rparr>)))"

section \<open>JavaScript built-ins used by the reader\<close>

text \<open>
  Strings are lists of 8-bit characters, read as code units below 256.  The white space
  and line terminators in that range are the seven characters of \<open>isWhiteSpace\<close>;
  \<^verbatim>\<open>String.prototype.trim\<close> removes them at both ends.
\<close>

definition isWhiteSpace :: "char \<Rightarrow> bool" where
  "isWhiteSpace c = (c \<in> {CHR 0x09, CHR 0x0A, CHR 0x0B, CHR 0x0C, CHR 0x0D, CHR '' '', CHR 0xA0})"

definition trim :: "string \<Rightarrow> string" where
  "trim s = rev (dropWhile isWhiteSpace (rev (dropWhile isWhiteSpace s)))"

text \<open>
  \<^verbatim>\<open>String.prototype.split\<close> with a separator of one character: the pieces between
  the separators, empty pieces included; the empty string gives one empty piece.
\<close>

fun split_chr :: "char \<Rightarrow> string \<Rightarrow> string list" where
  "split_chr sep [] = [[]]"
| "split_chr sep (c # cs) =
     (if c = sep then [] # split_chr sep cs
      else (case split_chr sep cs of
              [] \<Rightarrow> [[c]]
            | w # ws \<Rightarrow> (c # w) # ws))"

text \<open>
  A JavaScript number as \<^verbatim>\<open>parseFloat\<close> returns it: not-a-number, an infinity, or
  a finite binary64 number, given by its value.
\<close>

datatype jsnum = NaN | Num rat | PosInfinity | NegInfinity

text \<open>
  The binary64 number nearest to the fraction \<open>a / b\<close> (\<open>b > 0\<close>), ties to the even
  significand, as IEEE 754 rounds and V8 reads a decimal literal.  \<open>bitLength\<close> is the
  number of binary digits of a natural number; \<open>binaryExponent a b\<close> is the exponent
  \<open>E\<close> with \<open>2^E \<le> a / b < 2^(E+1)\<close> (lemma \<open>binaryExponent_bounds\<close>).  The
  significand has 53 bits, so the spacing of the binary64 numbers around \<open>a / b\<close> is
  \<open>2^(E - 52)\<close>, and \<open>2^(-1074)\<close> below the smallest normal number \<open>2^(-1022)\<close>.
  A result of \<open>2^1024\<close> or more is \<^verbatim>\<open>Infinity\<close>; a result of 0 is the number 0
  (the sign of a zero does not matter to the comparison the source makes).
\<close>

fun bitLength :: "nat \<Rightarrow> nat" where
  "bitLength n = (if n = 0 then 0 else Suc (bitLength (n div 2)))"

declare bitLength.simps [simp del]

definition binaryExponent :: "nat \<Rightarrow> nat \<Rightarrow> int" where
  "binaryExponent a b =
     (let d = int (bitLength a) - int (bitLength b)
      in if (2::rat) powi d * of_nat b \<le> of_nat a then d else d - 1)"

definition roundHalfEven :: "rat \<Rightarrow> int" where
  "roundHalfEven x =
     (let f = \<lfloor>x\<rfloor>; d = x - of_int f
      in if d < 1 / 2 then f
         else if 1 / 2 < d then f + 1
         else if even f then f else f + 1)"

definition toBinary64 :: "nat \<Rightarrow> nat \<Rightarrow> jsnum" where
  "toBinary64 a b =
     (if a = 0 then Num 0
      else
        (let e = max (binaryExponent a b) (- 1022);
             ulp = (2::rat) powi (e - 52);
             r = roundHalfEven (of_nat a / of_nat b / ulp)
         in if (2::rat) powi 1024 \<le> of_int r * ulp then PosInfinity
            else Num (of_int r * ulp)))"

definition isDigit :: "char \<Rightarrow> bool" where
  "isDigit c = (c \<in> set ''0123456789'')"

definition digitValue :: "char \<Rightarrow> nat" where
  "digitValue c = of_char c - 48"

definition decimalValue :: "string \<Rightarrow> nat" where
  "decimalValue ds = fold (\<lambda>c n. 10 * n + digitValue c) ds 0"

text \<open>
  \<^verbatim>\<open>parseFloat\<close>: the argument is converted to a string (\<^verbatim>\<open>undefined\<close> becomes
  \<^verbatim>\<open>"undefined"\<close>), leading white space is skipped, and the longest prefix that is
  a decimal literal (sign, \<^verbatim>\<open>Infinity\<close> or digits with an optional fraction and an
  optional exponent) is evaluated; without such a prefix the result is \<open>NaN\<close>.  The
  digits \<open>m\<close> and the decimal exponent \<open>e\<close> of the literal denote \<open>m * 10^e\<close>,
  which is rounded to binary64.  (ECMAScript lets an engine drop the digits after the
  20th significant one before it rounds; V8 rounds the value of all digits, as here.)
\<close>

definition signedInteger :: "string \<Rightarrow> int option" where
  "signedInteger s =
     (case s of
        [] \<Rightarrow> None
      | c # r \<Rightarrow>
          (let ds = takeWhile isDigit (if c = CHR ''+'' \<or> c = CHR ''-'' then r else s)
           in if ds = [] then None
              else Some (if c = CHR ''-'' then - int (decimalValue ds) else int (decimalValue ds))))"

definition exponentPart :: "string \<Rightarrow> int" where
  "exponentPart s =
     (case s of
        [] \<Rightarrow> 0
      | c # r \<Rightarrow>
          if c = CHR ''e'' \<or> c = CHR ''E''
          then (case signedInteger r of None \<Rightarrow> 0 | Some e \<Rightarrow> e)
          else 0)"

definition strUnsignedDecimalLiteral :: "string \<Rightarrow> jsnum" where
  "strUnsignedDecimalLiteral s =
     (if take 8 s = ''Infinity'' then PosInfinity
      else
        (let intDigits = takeWhile isDigit s;
             afterInt = dropWhile isDigit s;
             hasDot = (afterInt \<noteq> [] \<and> hd afterInt = CHR ''.'');
             fracDigits = (if hasDot then takeWhile isDigit (tl afterInt) else []);
             afterFrac = (if hasDot then dropWhile isDigit (tl afterInt) else afterInt)
         in if intDigits = [] \<and> fracDigits = [] then NaN
            else
              (let m = decimalValue (intDigits @ fracDigits);
                   e = exponentPart afterFrac - int (length fracDigits)
               in if 0 \<le> e then toBinary64 (m * 10 ^ nat e) 1
                  else toBinary64 m (10 ^ nat (- e)))))"

definition negate :: "jsnum \<Rightarrow> jsnum" where
  "negate n = (case n of NaN \<Rightarrow> NaN | Num q \<Rightarrow> Num (- q)
                | PosInfinity \<Rightarrow> NegInfinity | NegInfinity \<Rightarrow> PosInfinity)"

definition parseFloat :: "tag \<Rightarrow> jsnum" where
  "parseFloat x =
     (let inputString = (case x of None \<Rightarrow> ''undefined'' | Some s \<Rightarrow> s);
          trimmedString = dropWhile isWhiteSpace inputString
      in (case trimmedString of
            [] \<Rightarrow> NaN
          | c # r \<Rightarrow>
              if c = CHR ''-'' then negate (strUnsignedDecimalLiteral r)
              else if c = CHR ''+'' then strUnsignedDecimalLiteral r
              else strUnsignedDecimalLiteral trimmedString))"

text \<open>
  The loop counter \<open>i\<close> of \<^verbatim>\<open>readPhoto\<close> is a binary64 number as well.  It starts
  at 0 and \<^verbatim>\<open>i++\<close> is exact up to \<open>2^53\<close>; there \<open>2^53 + 1\<close> rounds back to
  \<open>2^53\<close> and the counter stays.  \<open>less_num\<close> is the loop test \<^verbatim>\<open>i < numTags\<close>.
\<close>

definition increment :: "nat \<Rightarrow> nat" where
  "increment i = (if i < 2 ^ 53 then i + 1 else i)"

definition less_num :: "nat \<Rightarrow> jsnum \<Rightarrow> bool" where
  "less_num i n =
     (case n of NaN \<Rightarrow> False | Num q \<Rightarrow> of_nat i < q
      | PosInfinity \<Rightarrow> True | NegInfinity \<Rightarrow> False)"

section \<open>Reader (src/index.ts, lines 31-93 and 335-341)\<close>

text \<open>
  The loop of \<^verbatim>\<open>readPhoto\<close> appends \<^verbatim>\<open>parts[i+2]\<close> while \<^verbatim>\<open>i < numTags\<close>.  With
  \<^verbatim>\<open>numTags = Infinity\<close>, or a number above \<open>2^53\<close>, it never ends, so the loop
  is a partial function and \<open>None\<close> stands for a call that does not return.  The
  index \<^verbatim>\<open>i+2\<close> is exact for every \<open>i\<close> below \<open>2^53 - 1\<close>, and at
  \<open>2^53 - 1\<close> both the rounded and the exact index lie beyond the tokens of the
  line.  Arrays are lists without a bound on their length: an array of JavaScript holds
  at most \<open>2^32 - 1\<close> elements, and what an array literal does beyond that
  depends on the engine, so the properties of the tag list are stated for counts up to
  \<open>2^32 - 1\<close>.
\<close>

partial_function (option) readPhoto_loop ::
  "string list \<Rightarrow> jsnum \<Rightarrow> nat \<Rightarrow> tag list \<Rightarrow> tag list option" where
  "readPhoto_loop parts numTags i tags' =
     (if less_num i numTags
      then readPhoto_loop parts numTags (increment i) (tags' @ [lookup parts (i + 2)])
      else Some tags')"

text \<open>
  \<^verbatim>\<open>parts[0]\<close> is always defined, since \<^verbatim>\<open>split\<close> returns at least one piece.
\<close>

definition readPhoto :: "string \<Rightarrow> nat \<Rightarrow> Photo option" where
  "readPhoto line nextIndex =
     (let parts = split_chr (CHR '' '') line;
          orientation' = hd parts;
          numTags = parseFloat (lookup parts 1)
      in (case readPhoto_loop parts numTags 0 [] of
            None \<Rightarrow> None
          | Some tags' \<Rightarrow>
              Some \<lparr>photo_id = nextIndex, orientation = orientation',
                    tags = tags', tagScore = 0\<rparr>))"

text \<open>The callback of \<^verbatim>\<open>photo.tags.forEach\<close> in \<^verbatim>\<open>readFile\<close> (lines 77-88).\<close>

definition registerTag :: "nat \<Rightarrow> tag \<Rightarrow> tagMap \<Rightarrow> tagMap" where
  "registerTag photoId tag' m =
     (case map_of m tag' of
        Some tagEntry \<Rightarrow>
          AList.update tag' (tagEntry\<lparr>photoIds := photoIds tagEntry @ [photoId]\<rparr>) m
      | None \<Rightarrow> AList.update tag' \<lparr>tag = tag', photoIds = [photoId]\<rparr> m)"

text \<open>
  The loop of \<^verbatim>\<open>readFile\<close> over the lines after the first, with the counter
  \<open>nextIndex\<close>; an empty line is skipped before it is trimmed.  \<open>data\<close> is the
  content of the file.  The first line is removed; its number (\<^verbatim>\<open>numPhotos\<close>) is
  never used.
\<close>

fun readFile_loop :: "string list \<Rightarrow> nat \<Rightarrow> Globals \<Rightarrow> Globals option" where
  "readFile_loop [] nextIndex g = Some g"
| "readFile_loop (line # rest) nextIndex g =
     (if line = [] then readFile_loop rest nextIndex g
      else (case readPhoto (trim line) nextIndex of
              None \<Rightarrow> None
            | Some photo \<Rightarrow>
                readFile_loop rest (nextIndex + 1)
                  \<lparr>photos = Globals.photos g @ [photo],
                   allTags = fold (registerTag (photo_id photo)) (Photo.tags photo) (allTags g)\<rparr>))"

definition readFile :: "string \<Rightarrow> Globals \<Rightarrow> Globals option" where
  "readFile data g =
     (let dataByLine = split_chr (CHR 0x0A) data
      in readFile_loop (tl dataByLine) 0 g)"

definition reset :: Globals where
  "reset = \<lparr>photos = [], allTags = []\<rparr>"

section \<open>Notions used to state the properties\<close>

text \<open>
  \<open>scored\<close> is a photo after the comparator has written its \<^verbatim>\<open>tagScore\<close>;
  \<open>popularity\<close> is the number of photo ids registered for a tag (0 for a tag without
  entry); \<open>slideIds\<close> are the photo ids of a slide, in order; \<open>occurrences\<close> counts
  the slides of a sequence that show a given photo id.
\<close>

definition scored :: "tagMap \<Rightarrow> Photo \<Rightarrow> Photo" where
  "scored tm p = p\<lparr>tagScore := calculateTagScore tm p\<rparr>"

definition popularity :: "tagMap \<Rightarrow> tag \<Rightarrow> int" where
  "popularity tm t = (case map_of tm t of Some e \<Rightarrow> int (length (photoIds e)) | None \<Rightarrow> 0)"

definition slideIds :: "Slide \<Rightarrow> nat list" where
  "slideIds s = map photo_id (Slide.photos s)"

definition occurrences :: "nat \<Rightarrow> Slide list \<Rightarrow> nat" where
  "occurrences pid sl = length (filter (\<lambda>s. pid \<in> set (slideIds s)) sl)"

text \<open>
  \<open>registrations t ps\<close> lists, photo by photo, the id of each photo of \<open>ps\<close> once
  per occurrence of the tag \<open>t\<close> in its tag list; \<open>indexed ps m\<close> says that the tag
  map \<open>m\<close> holds exactly these lists.
\<close>

definition registrations :: "tag \<Rightarrow> Photo list \<Rightarrow> nat list" where
  "registrations t ps = concat (map (\<lambda>p. replicate (count_list (Photo.tags p) t) (photo_id p)) ps)"

definition indexed :: "Photo list \<Rightarrow> tagMap \<Rightarrow> bool" where
  "indexed ps m \<longleftrightarrow>
     (\<forall>t. map_of m t =
        (if registrations t ps = [] then None
         else Some \<lparr>tag = t, photoIds = registrations t ps\<rparr>))"

section \<open>Properties of the scorer\<close>

lemma array_includes_iff: "array_includes xs x \<longleftrightarrow> x \<in> set xs"
  by (induction xs) auto

lemma fold_count: "fold (\<lambda>x n. if P x then n + 1 else n) xs (k::int) = k + int (length (filter P xs))"
  by (induction xs arbitrary: k) auto

lemma compareSlides_filter:
  "compareSlides a b =
     min (min (int (length (filter (\<lambda>t. t \<in> set (Slide.tags b)) (Slide.tags a))))
              (int (length (filter (\<lambda>t. t \<notin> set (Slide.tags b)) (Slide.tags a)))))
         (int (length (filter (\<lambda>t. t \<notin> set (Slide.tags a)) (Slide.tags b))))"
  by (simp add: compareSlides_def fold_count array_includes_iff)

lemma getScore_loop_sum:
  "i \<le> length ss \<Longrightarrow>
   getScore_loop ss i k =
     Inr (k + (\<Sum>j = i..<length ss - 1. compareSlides (ss ! j) (ss ! (j + 1))))"
proof (induction ss i k rule: getScore_loop.induct)
  case (1 ss i k)
  show ?case
  proof (cases "i + 1 < length ss")
    case True
    then have l1: "lookup ss i = Some (ss ! i)" and l2: "lookup ss (i + 1) = Some (ss ! (i + 1))"
      by (simp_all add: lookup_def)
    from True have ne: "int i \<noteq> int (length ss) - 1" by linarith
    have ih: "getScore_loop ss (i + 1) (k + compareSlides (ss ! i) (ss ! (i + 1))) =
        Inr (k + compareSlides (ss ! i) (ss ! (i + 1)) +
          (\<Sum>j = i + 1..<length ss - 1. compareSlides (ss ! j) (ss ! (j + 1))))"
      using "1.IH" [OF _ ne l1 l2] True by simp
    have split: "(\<Sum>j = i..<length ss - 1. compareSlides (ss ! j) (ss ! (j + 1))) =
        compareSlides (ss ! i) (ss ! (i + 1)) +
          (\<Sum>j = i + 1..<length ss - 1. compareSlides (ss ! j) (ss ! (j + 1)))"
      using True by (simp add: sum.atLeast_Suc_lessThan)
    show ?thesis
      using True ne l1 l2 ih split by (subst getScore_loop.simps) simp
  next
    case False
    then have "(\<Sum>j = i..<length ss - 1. compareSlides (ss ! j) (ss ! (j + 1))) = 0"
      by simp
    moreover have "getScore_loop ss i k = Inr k"
      using False by (subst getScore_loop.simps) auto
    ultimately show ?thesis by simp
  qed
qed

lemma compareSlides_nonneg: "0 \<le> compareSlides a b"
  by (simp add: compareSlides_filter)

lemma sum_compareSlides_nonneg:
  "0 \<le> (\<Sum>j = i..<n. compareSlides (ss ! j) (ss ! (j + 1)))"
  by (rule sum_nonneg) (simp add: compareSlides_nonneg)

lemma filter_mem_card:
  "distinct xs \<Longrightarrow> length (filter (\<lambda>t. t \<in> set ys) xs) = card (set xs \<inter> set ys)"
proof -
  assume d: "distinct xs"
  then have "distinct (filter (\<lambda>t. t \<in> set ys) xs)" by simp
  then have "length (filter (\<lambda>t. t \<in> set ys) xs) = card (set (filter (\<lambda>t. t \<in> set ys) xs))"
    by (rule distinct_card [symmetric])
  also have "set (filter (\<lambda>t. t \<in> set ys) xs) = set xs \<inter> set ys" by auto
  finally show ?thesis .
qed

lemma filter_notmem_card:
  "distinct xs \<Longrightarrow> length (filter (\<lambda>t. t \<notin> set ys) xs) = card (set xs - set ys)"
proof -
  assume d: "distinct xs"
  then have "distinct (filter (\<lambda>t. t \<notin> set ys) xs)" by simp
  then have "length (filter (\<lambda>t. t \<notin> set ys) xs) = card (set (filter (\<lambda>t. t \<notin> set ys) xs))"
    by (rule distinct_card [symmetric])
  also have "set (filter (\<lambda>t. t \<notin> set ys) xs) = set xs - set ys" by auto
  finally show ?thesis .
qed

lemma compareSlides_card:
  "distinct (Slide.tags a) \<Longrightarrow> distinct (Slide.tags b) \<Longrightarrow>
   compareSlides a b =
     min (min (int (card (set (Slide.tags a) \<inter> set (Slide.tags b))))
              (int (card (set (Slide.tags a) - set (Slide.tags b)))))
         (int (card (set (Slide.tags b) - set (Slide.tags a))))"
  by (simp add: compareSlides_filter filter_mem_card filter_notmem_card)

text \<open>
  C1.  For every pair of slides A and B, \<open>compareSlides A B\<close> is the minimum of three
  counts: the tags of A that occur among B's tags, the tags of A that do not, and the
  tags of B that do not occur among A's tags.
\<close>

theorem C1_compareSlides_min:
  "compareSlides A B =
     Min {int (length (filter (\<lambda>t. t \<in> set (Slide.tags B)) (Slide.tags A))),
          int (length (filter (\<lambda>t. t \<notin> set (Slide.tags B)) (Slide.tags A))),
          int (length (filter (\<lambda>t. t \<notin> set (Slide.tags A)) (Slide.tags B)))}"
  by (simp add: compareSlides_filter min.assoc)

text \<open>
  C2.  The total score of a slideshow is the sum of \<open>compareSlides\<close> over every pair of
  consecutive slides (positions \<open>j\<close> and \<open>j + 1\<close>), and it is 0 when the slideshow has
  no slide or one slide.
\<close>

theorem C2_getScore_sum:
  "getScore show =
     Inr (\<Sum>j = 0..<length (slides show) - 1.
            compareSlides (slides show ! j) (slides show ! (j + 1)))
   \<and> (length (slides show) \<le> 1 \<longrightarrow> getScore show = Inr 0)"
  by (simp add: getScore_def getScore_loop_sum)

theorem C2_getScore_sum_witness:
  "getScore \<lparr>slides = [\<lparr>Slide.photos = [], Slide.tags = [Some ''a'']\<rparr>], score = 0\<rparr> = Inr 0
   \<and> length (slides \<lparr>slides = [\<lparr>Slide.photos = [], Slide.tags = [Some ''a'']\<rparr>], score = 0\<rparr>) \<le> 1"
  using C2_getScore_sum [of "\<lparr>slides = [\<lparr>Slide.photos = [], Slide.tags = [Some ''a'']\<rparr>], score = 0\<rparr>"]
  by simp

text \<open>
  C9.  The adjacency score of two slides is at most the number of tags of either slide
  and is never negative; the total score of every slideshow is computed without error
  and is never negative.
\<close>

theorem C9_score_bounds:
  "compareSlides A B \<le> min (int (length (Slide.tags A))) (int (length (Slide.tags B)))
   \<and> 0 \<le> compareSlides A B
   \<and> (\<exists>s. getScore show = Inr s \<and> 0 \<le> s)"
proof -
  have "int (length (filter (\<lambda>t. t \<in> set (Slide.tags B)) (Slide.tags A)))
      \<le> int (length (Slide.tags A))"
    by simp
  moreover have "int (length (filter (\<lambda>t. t \<notin> set (Slide.tags A)) (Slide.tags B)))
      \<le> int (length (Slide.tags B))"
    by simp
  ultimately have "compareSlides A B \<le> min (int (length (Slide.tags A))) (int (length (Slide.tags B)))"
    unfolding compareSlides_filter by linarith
  moreover have "getScore show =
      Inr (\<Sum>j = 0..<length (slides show) - 1.
             compareSlides (slides show ! j) (slides show ! (j + 1)))"
    by (simp add: getScore_def getScore_loop_sum)
  ultimately show ?thesis
    using compareSlides_nonneg sum_compareSlides_nonneg by blast
qed

text \<open>
  C10.  On slides whose tag lists have no duplicates the adjacency scorer is
  commutative.
\<close>

theorem C10_compareSlides_commute:
  "distinct (Slide.tags A) \<Longrightarrow> distinct (Slide.tags B) \<Longrightarrow>
   compareSlides A B = compareSlides B A"
proof -
  assume dA: "distinct (Slide.tags A)" and dB: "distinct (Slide.tags B)"
  have "length (filter (\<lambda>t. t \<in> set (Slide.tags B)) (Slide.tags A)) =
        length (filter (\<lambda>t. t \<in> set (Slide.tags A)) (Slide.tags B))"
    using dA dB by (simp add: filter_mem_card Int_commute)
  then show ?thesis
    unfolding compareSlides_filter by linarith
qed

theorem C10_compareSlides_commute_witness:
  "distinct (Slide.tags \<lparr>Slide.photos = [], Slide.tags = [Some ''a'', Some ''b'', Some ''c'', Some ''d'']\<rparr>)
   \<and> distinct (Slide.tags \<lparr>Slide.photos = [], Slide.tags = [Some ''c'', Some ''d'', Some ''e'', Some ''f'']\<rparr>)
   \<and> compareSlides \<lparr>Slide.photos = [], Slide.tags = [Some ''a'', Some ''b'', Some ''c'', Some ''d'']\<rparr>
        \<lparr>Slide.photos = [], Slide.tags = [Some ''c'', Some ''d'', Some ''e'', Some ''f'']\<rparr> = 2
   \<and> compareSlides \<lparr>Slide.photos = [], Slide.tags = [Some ''c'', Some ''d'', Some ''e'', Some ''f'']\<rparr>
        \<lparr>Slide.photos = [], Slide.tags = [Some ''a'', Some ''b'', Some ''c'', Some ''d'']\<rparr> = 2"
  using C10_compareSlides_commute
    [of "\<lparr>Slide.photos = [], Slide.tags = [Some ''a'', Some ''b'', Some ''c'', Some ''d'']\<rparr>"
        "\<lparr>Slide.photos = [], Slide.tags = [Some ''c'', Some ''d'', Some ''e'', Some ''f'']\<rparr>"]
  by (simp add: compareSlides_def)

section \<open>Properties of the builder and the ranking\<close>

lemma verticalSlides_loop_eq:
  "verticalSlides_loop v i acc =
     Inr (acc @ map (\<lambda>k. createVerticalSlide (v ! (i + 2 * k)) (v ! (i + 2 * k + 1)))
                  [0..<(length v - i) div 2])"
proof (induction v i acc rule: verticalSlides_loop.induct)
  case (1 v i acc)
  show ?case
  proof (cases "i + 1 < length v")
    case True
    then have l1: "lookup v i = Some (v ! i)" and l2: "lookup v (i + 1) = Some (v ! (i + 1))"
      by (simp_all add: lookup_def)
    from True have c1: "i < length v" and c2: "\<not> length v \<le> i + 1" by simp_all
    have n: "(length v - i) div 2 = Suc ((length v - (i + 2)) div 2)"
      using True by (simp add: Suc_diff_Suc flip: div2_Suc_Suc)
    have ih: "verticalSlides_loop v (i + 2) (acc @ [createVerticalSlide (v ! i) (v ! (i + 1))]) =
       Inr ((acc @ [createVerticalSlide (v ! i) (v ! (i + 1))]) @
            map (\<lambda>k. createVerticalSlide (v ! (i + 2 + 2 * k)) (v ! (i + 2 + 2 * k + 1)))
              [0..<(length v - (i + 2)) div 2])"
      by (rule "1.IH" [OF c1 c2 l1 l2])
    show ?thesis
      apply (subst verticalSlides_loop.simps)
      apply (simp only: c1 c2 l1 l2 if_True if_False option.case ih n map_upt_Suc)
      apply simp
      done
  next
    case False
    then have "(length v - i) div 2 = 0" by simp
    moreover have "verticalSlides_loop v i acc = Inr acc"
      using False by (subst verticalSlides_loop.simps) auto
    ultimately show ?thesis by simp
  qed
qed

lemma concat_pairs_take:
  "2 * m \<le> length v \<Longrightarrow>
   concat (map (\<lambda>k. [v ! (2 * k), v ! (2 * k + 1)]) [0..<m]) = take (2 * m) v"
proof (induction m)
  case 0
  then show ?case by simp
next
  case (Suc m)
  then have a: "2 * m < length v" and b: "Suc (2 * m) < length v" by simp_all
  have "take (2 * Suc m) v = take (2 * m) v @ [v ! (2 * m), v ! (2 * m + 1)]"
    using a b by (simp add: take_Suc_conv_app_nth)
  with Suc show ?case by simp
qed

lemma set_from_array_props_aux:
  "distinct s \<Longrightarrow> distinct (fold (\<lambda>x s. set_add s x) xs s) \<and>
     set (fold (\<lambda>x s. set_add s x) xs s) = set s \<union> set xs"
  by (induction xs arbitrary: s) (auto simp: set_add_def array_includes_iff)

lemma set_from_array_distinct: "distinct (set_from_array xs)"
  using set_from_array_props_aux [of "[]" xs] by (simp add: set_from_array_def)

lemma set_from_array_set: "set (set_from_array xs) = set xs"
  using set_from_array_props_aux [of "[]" xs] by (simp add: set_from_array_def)

lemma fold_push_map: "fold (\<lambda>x acc. acc @ [f x]) xs ys = ys @ map f xs"
  by (induction xs arbitrary: ys) auto

lemma buildSlides_eq:
  "buildSlides ranked =
     Inr (map createHorizontalSlide (filter (\<lambda>p. orientation p = ''H'') ranked),
          map (\<lambda>k. createVerticalSlide (filter (\<lambda>p. orientation p = ''V'') ranked ! (2 * k))
                                        (filter (\<lambda>p. orientation p = ''V'') ranked ! (2 * k + 1)))
            [0..<length (filter (\<lambda>p. orientation p = ''V'') ranked) div 2])"
  by (simp add: buildSlides_def verticalSlides_loop_eq fold_push_map Let_def)

lemma photos_createVerticalSlide: "Slide.photos (createVerticalSlide p q) = [p, q]"
  by (simp add: createVerticalSlide_def)

lemma calculateTagScore_upd [simp]:
  "calculateTagScore tm (p\<lparr>tagScore := x\<rparr>) = calculateTagScore tm p"
  by (simp add: calculateTagScore_def)

lemma calculateTagScore_scored [simp]: "calculateTagScore tm (scored tm p) = calculateTagScore tm p"
  by (simp add: scored_def)

lemma scored_idem [simp]: "scored tm (scored tm p) = scored tm p"
  by (simp add: scored_def)

lemma fold_popularity:
  "fold (\<lambda>t s. case map_of tm t of Some e \<Rightarrow> s + int (length (photoIds e)) | None \<Rightarrow> s) ts k =
     k + (\<Sum>t\<leftarrow>ts. popularity tm t)"
  by (induction ts arbitrary: k) (auto simp: popularity_def split: option.splits)

lemma calculateTagScore_sum: "calculateTagScore tm p = (\<Sum>t\<leftarrow>Photo.tags p. popularity tm t)"
  by (simp add: calculateTagScore_def fold_popularity)

lemma sort_insert_comparePhotos:
  "sort_insert (comparePhotos tm) x (y # ys) =
     (if calculateTagScore tm y \<le> calculateTagScore tm x
      then scored tm x # scored tm y # ys
      else scored tm y # sort_insert (comparePhotos tm) (scored tm x) ys)"
  by (simp add: comparePhotos_def scored_def Let_def)

lemma sort_insert_scored:
  "map (scored tm) (sort_insert (comparePhotos tm) x ys) =
   map (scored tm) (sort_insert (comparePhotos tm) (scored tm x) ys)"
  by (cases ys) (simp_all add: sort_insert_comparePhotos del: sort_insert.simps(2))

lemma mset_sort_insert:
  "mset (map (scored tm) (sort_insert (comparePhotos tm) x ys)) =
     add_mset (scored tm x) (mset (map (scored tm) ys))"
proof (induction ys arbitrary: x)
  case Nil
  then show ?case by simp
next
  case (Cons y ys)
  show ?case
    using Cons.IH [of "scored tm x"] by (simp add: sort_insert_comparePhotos del: sort_insert.simps(2))
qed

lemma mset_array_sort:
  "mset (map (scored tm) (array_sort (comparePhotos tm) xs)) = mset (map (scored tm) xs)"
  by (induction xs) (simp_all add: array_sort_def mset_sort_insert del: mset_map)

lemma keys_sort_insert:
  "calculateTagScore tm ` set (sort_insert (comparePhotos tm) x ys) =
     insert (calculateTagScore tm x) (calculateTagScore tm ` set ys)"
proof -
  have "calculateTagScore tm ` set (sort_insert (comparePhotos tm) x ys) =
        calculateTagScore tm ` set (map (scored tm) (sort_insert (comparePhotos tm) x ys))"
    by (simp add: image_image)
  also have "\<dots> = calculateTagScore tm ` set_mset (mset (map (scored tm) (sort_insert (comparePhotos tm) x ys)))"
    by simp
  also have "\<dots> = insert (calculateTagScore tm x) (calculateTagScore tm ` set ys)"
    unfolding mset_sort_insert by (simp add: image_image)
  finally show ?thesis .
qed

lemma sorted_sort_insert:
  "sorted_wrt (\<lambda>p q. calculateTagScore tm q \<le> calculateTagScore tm p) ys \<Longrightarrow>
   sorted_wrt (\<lambda>p q. calculateTagScore tm q \<le> calculateTagScore tm p)
     (sort_insert (comparePhotos tm) x ys)"
proof (induction ys arbitrary: x)
  case Nil
  then show ?case by simp
next
  case (Cons y ys)
  show ?case
  proof (cases "calculateTagScore tm y \<le> calculateTagScore tm x")
    case True
    with Cons.prems show ?thesis
      by (auto simp: sort_insert_comparePhotos simp del: sort_insert.simps(2))
  next
    case False
    have s: "sorted_wrt (\<lambda>p q. calculateTagScore tm q \<le> calculateTagScore tm p)
        (sort_insert (comparePhotos tm) (scored tm x) ys)"
      using Cons.IH Cons.prems by simp
    have "\<forall>z\<in>set (sort_insert (comparePhotos tm) (scored tm x) ys).
        calculateTagScore tm z \<le> calculateTagScore tm y"
    proof
      fix z assume "z \<in> set (sort_insert (comparePhotos tm) (scored tm x) ys)"
      then have "calculateTagScore tm z \<in>
          insert (calculateTagScore tm (scored tm x)) (calculateTagScore tm ` set ys)"
        unfolding keys_sort_insert [symmetric] by (rule imageI)
      with False Cons.prems show "calculateTagScore tm z \<le> calculateTagScore tm y"
        by auto
    qed
    with s False show ?thesis
      by (simp add: sort_insert_comparePhotos del: sort_insert.simps(2))
  qed
qed

lemma sorted_array_sort:
  "sorted_wrt (\<lambda>p q. calculateTagScore tm q \<le> calculateTagScore tm p)
     (array_sort (comparePhotos tm) xs)"
  by (induction xs) (simp_all add: array_sort_def sorted_sort_insert)

lemma stable_sort_insert:
  "map (scored tm) (filter (\<lambda>p. calculateTagScore tm p = c) (sort_insert (comparePhotos tm) x ys)) =
     (if calculateTagScore tm x = c then [scored tm x] else []) @
       map (scored tm) (filter (\<lambda>p. calculateTagScore tm p = c) ys)"
proof (induction ys arbitrary: x)
  case Nil
  then show ?case by simp
next
  case (Cons y ys)
  show ?case
    using Cons.IH [of "scored tm x"] by (auto simp: sort_insert_comparePhotos simp del: sort_insert.simps(2))
qed

lemma stable_array_sort:
  "map (scored tm) (filter (\<lambda>p. calculateTagScore tm p = c) (array_sort (comparePhotos tm) xs)) =
   map (scored tm) (filter (\<lambda>p. calculateTagScore tm p = c) xs)"
  by (induction xs) (auto simp: array_sort_def stable_sort_insert)

lemma written_sort_insert:
  "tagScore x = calculateTagScore tm x \<Longrightarrow>
   \<forall>p\<in>set ys. tagScore p = calculateTagScore tm p \<Longrightarrow>
   \<forall>p\<in>set (sort_insert (comparePhotos tm) x ys). tagScore p = calculateTagScore tm p"
proof (induction ys arbitrary: x)
  case Nil
  then show ?case by simp
next
  case (Cons y ys)
  have "\<forall>p\<in>set (sort_insert (comparePhotos tm) (scored tm x) ys). tagScore p = calculateTagScore tm p"
    using Cons.prems by (intro Cons.IH) (simp_all add: scored_def)
  with Cons.prems show ?case
    by (auto simp: sort_insert_comparePhotos scored_def simp del: sort_insert.simps(2))
qed

lemma written_sort_insert_first:
  "ys \<noteq> [] \<Longrightarrow> \<forall>p\<in>set (tl ys). tagScore p = calculateTagScore tm p \<Longrightarrow>
   \<forall>p\<in>set (sort_insert (comparePhotos tm) x ys). tagScore p = calculateTagScore tm p"
proof (cases ys)
  case Nil
  assume "ys \<noteq> []" with Nil show ?thesis by simp
next
  case (Cons y zs)
  assume "\<forall>p\<in>set (tl ys). tagScore p = calculateTagScore tm p"
  with Cons have zs: "\<forall>p\<in>set zs. tagScore p = calculateTagScore tm p" by simp
  have "\<forall>p\<in>set (sort_insert (comparePhotos tm) (scored tm x) zs). tagScore p = calculateTagScore tm p"
    using zs by (intro written_sort_insert) (simp_all add: scored_def)
  with zs Cons show ?thesis
    by (auto simp: sort_insert_comparePhotos scored_def simp del: sort_insert.simps(2))
qed

lemma sort_insert_nonempty: "sort_insert cmp x ys \<noteq> []"
  by (cases ys) (auto split: prod.splits)

lemma written_array_sort_aux:
  "(\<forall>p\<in>set (tl (array_sort (comparePhotos tm) xs)). tagScore p = calculateTagScore tm p) \<and>
   (2 \<le> length xs \<longrightarrow> (\<forall>p\<in>set (array_sort (comparePhotos tm) xs). tagScore p = calculateTagScore tm p)) \<and>
   (xs \<noteq> [] \<longrightarrow> array_sort (comparePhotos tm) xs \<noteq> [])"
proof (induction xs)
  case Nil
  then show ?case by (simp add: array_sort_def)
next
  case (Cons x xs)
  have step: "array_sort (comparePhotos tm) (x # xs) =
      sort_insert (comparePhotos tm) x (array_sort (comparePhotos tm) xs)"
    by (simp add: array_sort_def)
  show ?case
  proof (cases "xs = []")
    case True
    then show ?thesis by (simp add: array_sort_def)
  next
    case False
    with Cons.IH have ne: "array_sort (comparePhotos tm) xs \<noteq> []"
      and tl: "\<forall>p\<in>set (tl (array_sort (comparePhotos tm) xs)). tagScore p = calculateTagScore tm p"
      by simp_all
    have all: "\<forall>p\<in>set (array_sort (comparePhotos tm) (x # xs)). tagScore p = calculateTagScore tm p"
      unfolding step by (rule written_sort_insert_first [OF ne tl])
    then have "\<forall>p\<in>set (tl (array_sort (comparePhotos tm) (x # xs))). tagScore p = calculateTagScore tm p"
      by (metis list.set_sel(2) sort_insert_nonempty step)
    with all show ?thesis
      by (simp add: step sort_insert_nonempty)
  qed
qed

lemma array_sort_short: "length xs < 2 \<Longrightarrow> array_sort cmp xs = xs"
  by (cases xs) (auto simp: array_sort_def)


lemma rankPhotos_perm:
  "mset (map (\<lambda>p. (photo_id p, orientation p)) (rankPhotos tm ps)) =
   mset (map (\<lambda>p. (photo_id p, orientation p)) ps)"
proof -
  have h: "map (\<lambda>p. (photo_id p, orientation p)) xs =
           map (\<lambda>p. (photo_id p, orientation p)) (map (scored tm) xs)" for xs
    by (simp add: scored_def)
  have "mset (map (\<lambda>p. (photo_id p, orientation p)) (rankPhotos tm ps)) =
        mset (map (\<lambda>p. (photo_id p, orientation p)) (map (scored tm) (rankPhotos tm ps)))"
    by (rule arg_cong [OF h])
  also have "\<dots> = image_mset (\<lambda>p. (photo_id p, orientation p)) (mset (map (scored tm) (rankPhotos tm ps)))"
    by (simp only: mset_map)
  also have "\<dots> = image_mset (\<lambda>p. (photo_id p, orientation p)) (mset (map (scored tm) ps))"
    by (simp only: rankPhotos_def mset_array_sort)
  also have "\<dots> = mset (map (\<lambda>p. (photo_id p, orientation p)) (map (scored tm) ps))"
    by (simp only: mset_map)
  also have "\<dots> = mset (map (\<lambda>p. (photo_id p, orientation p)) ps)"
    by (rule arg_cong [OF h [symmetric]])
  finally show ?thesis .
qed

lemma filter_ids_via_pairs:
  "map photo_id (filter (\<lambda>p. orientation p = t) xs) =
   map fst (filter (\<lambda>io. snd io = t) (map (\<lambda>p. (photo_id p, orientation p)) xs))"
  by (induction xs) auto

lemma rankPhotos_ids_of:
  "mset (map photo_id (filter (\<lambda>p. orientation p = t) (rankPhotos tm ps))) =
   mset (map photo_id (filter (\<lambda>p. orientation p = t) ps))"
proof -
  have "mset (map fst (filter (\<lambda>io. snd io = t) (map (\<lambda>p. (photo_id p, orientation p)) (rankPhotos tm ps)))) =
        image_mset fst (filter_mset (\<lambda>io. snd io = t) (mset (map (\<lambda>p. (photo_id p, orientation p)) (rankPhotos tm ps))))"
    by (simp only: mset_map mset_filter)
  also have "\<dots> = image_mset fst (filter_mset (\<lambda>io. snd io = t) (mset (map (\<lambda>p. (photo_id p, orientation p)) ps)))"
    by (simp only: rankPhotos_perm)
  also have "\<dots> = mset (map fst (filter (\<lambda>io. snd io = t) (map (\<lambda>p. (photo_id p, orientation p)) ps)))"
    by (simp only: mset_map mset_filter)
  finally show ?thesis by (simp only: filter_ids_via_pairs)
qed

lemma rankPhotos_ids: "mset (map photo_id (rankPhotos tm ps)) = mset (map photo_id ps)"
proof -
  have "image_mset fst (mset (map (\<lambda>p. (photo_id p, orientation p)) (rankPhotos tm ps))) =
        image_mset fst (mset (map (\<lambda>p. (photo_id p, orientation p)) ps))"
    by (rule arg_cong [OF rankPhotos_perm])
  then show ?thesis by (simp add: o_def multiset.map_comp)
qed

lemma rankPhotos_orientations:
  "orientation ` set (rankPhotos tm ps) = orientation ` set ps"
proof -
  have "set_mset (image_mset snd (mset (map (\<lambda>p. (photo_id p, orientation p)) (rankPhotos tm ps)))) =
        set_mset (image_mset snd (mset (map (\<lambda>p. (photo_id p, orientation p)) ps)))"
    by (rule arg_cong [OF rankPhotos_perm])
  then show ?thesis by (simp add: image_image)
qed

lemma slideIds_horizontal: "slideIds (createHorizontalSlide p) = [photo_id p]"
  by (simp add: slideIds_def createHorizontalSlide_def)

lemma concat_slideIds_horizontal:
  "concat (map slideIds (map createHorizontalSlide xs)) = map photo_id xs"
  by (induction xs) (simp_all add: slideIds_horizontal)

lemma concat_photos_vertical:
  "concat (map Slide.photos
     (map (\<lambda>k. createVerticalSlide (v ! (2 * k)) (v ! (2 * k + 1))) [0..<length v div 2])) =
   take (2 * (length v div 2)) v"
proof -
  have "concat (map Slide.photos
     (map (\<lambda>k. createVerticalSlide (v ! (2 * k)) (v ! (2 * k + 1))) [0..<length v div 2])) =
     concat (map (\<lambda>k. [v ! (2 * k), v ! (2 * k + 1)]) [0..<length v div 2])"
    by (simp add: o_def photos_createVerticalSlide)
  also have "\<dots> = take (2 * (length v div 2)) v"
    by (rule concat_pairs_take) simp
  finally show ?thesis .
qed

lemma concat_slideIds: "concat (map slideIds sl) = map photo_id (concat (map Slide.photos sl))"
  by (induction sl) (simp_all add: slideIds_def)

lemma occurrences_one:
  "distinct (concat (map slideIds sl)) \<Longrightarrow> pid \<in> set (concat (map slideIds sl)) \<Longrightarrow>
   occurrences pid sl = 1"
proof (induction sl)
  case Nil
  then show ?case by simp
next
  case (Cons s sl)
  show ?case
  proof (cases "pid \<in> set (slideIds s)")
    case True
    with Cons.prems have "\<forall>t\<in>set sl. pid \<notin> set (slideIds t)" by auto
    then have "filter (\<lambda>s. pid \<in> set (slideIds s)) sl = []" by (simp add: filter_empty_conv)
    with True show ?thesis by (simp add: occurrences_def)
  next
    case False
    with Cons show ?thesis by (simp add: occurrences_def)
  qed
qed

lemma occurrences_zero:
  "pid \<notin> set (concat (map slideIds sl)) \<Longrightarrow> occurrences pid sl = 0"
  by (simp add: occurrences_def filter_empty_conv)

lemma take_even_odd:
  "take (2 * (length v div 2)) v = (if even (length v) then v else butlast v)"
proof (cases "even (length v)")
  case True
  then have "2 * (length v div 2) = length v" by simp
  with True show ?thesis by simp
next
  case False
  then have "2 * (length v div 2) = length v - 1"
    by (metis odd_two_times_div_two_nat)
  with False show ?thesis by (simp add: butlast_conv_take)
qed


text \<open>
  C3.  For every ranked photo sequence the builder returns without error.  With \<open>v\<close>
  the vertical photos in ranked order, the vertical slides are the pairs
  \<open>(v ! 0, v ! 1)\<close>, \<open>(v ! 2, v ! 3)\<close> and so on, one slide per pair, in that order;
  the tags of a vertical slide are duplicate-free and are the union of the tags of its
  two photos.  When the number of vertical photos is odd, the slides hold every
  horizontal photo and every vertical photo but the last one, which is in no slide.
\<close>

theorem C3_vertical_pairing:
  "(let v = filter (\<lambda>p. orientation p = ''V'') ranked;
        hs = map createHorizontalSlide (filter (\<lambda>p. orientation p = ''H'') ranked);
        vs = map (\<lambda>k. createVerticalSlide (v ! (2 * k)) (v ! (2 * k + 1))) [0..<length v div 2]
    in buildSlides ranked = Inr (hs, vs)
     \<and> concat (map Slide.photos vs) = take (2 * (length v div 2)) v
     \<and> (odd (length v) \<longrightarrow>
          length vs = (length v - 1) div 2
        \<and> concat (map Slide.photos (hs @ vs)) =
            filter (\<lambda>p. orientation p = ''H'') ranked @ butlast v
        \<and> (distinct (map photo_id ranked) \<longrightarrow>
             photo_id (last v) \<notin> set (concat (map slideIds (hs @ vs))))))
   \<and> Slide.photos (createVerticalSlide p q) = [p, q]
   \<and> set (Slide.tags (createVerticalSlide p q)) = set (Photo.tags p) \<union> set (Photo.tags q)
   \<and> distinct (Slide.tags (createVerticalSlide p q))"
proof -
  define v where "v = filter (\<lambda>p. orientation p = ''V'') ranked"
  define h where "h = filter (\<lambda>p. orientation p = ''H'') ranked"
  define hs where "hs = map createHorizontalSlide h"
  define vs where "vs = map (\<lambda>k. createVerticalSlide (v ! (2 * k)) (v ! (2 * k + 1))) [0..<length v div 2]"
  have b: "buildSlides ranked = Inr (hs, vs)"
    by (simp add: buildSlides_eq hs_def vs_def v_def h_def)
  have ph: "concat (map Slide.photos vs) = take (2 * (length v div 2)) v"
    unfolding vs_def by (rule concat_photos_vertical)
  have hph: "concat (map Slide.photos hs) = h"
    unfolding hs_def by (induction h) (simp_all add: createHorizontalSlide_def)
  have odd_part: "length vs = (length v - 1) div 2
          \<and> concat (map Slide.photos (hs @ vs)) = h @ butlast v
          \<and> (distinct (map photo_id ranked) \<longrightarrow>
               photo_id (last v) \<notin> set (concat (map slideIds (hs @ vs))))" if o: "odd (length v)"
  proof -
    from o have ne: "v \<noteq> []" by auto
    have l: "length vs = (length v - 1) div 2"
      using o by (auto simp: vs_def elim!: oddE)
    from o have t: "take (2 * (length v div 2)) v = butlast v"
      by (subst take_even_odd) simp
    have c: "concat (map Slide.photos (hs @ vs)) = h @ butlast v"
      by (simp add: ph hph t)
    have d: "photo_id (last v) \<notin> set (concat (map slideIds (hs @ vs)))"
      if dist: "distinct (map photo_id ranked)"
    proof
      assume "photo_id (last v) \<in> set (concat (map slideIds (hs @ vs)))"
      then have "photo_id (last v) \<in> photo_id ` set (h @ butlast v)"
        by (simp only: concat_slideIds c set_map)
      then obtain x where x: "x \<in> set (h @ butlast v)" and e: "photo_id (last v) = photo_id x"
        by auto
      have inj: "inj_on photo_id (set ranked)" using dist by (simp add: distinct_map)
      have lv: "last v \<in> set v" using ne by simp
      then have lr: "last v \<in> set ranked" and lo: "orientation (last v) = ''V''"
        by (simp_all add: v_def)
      have xr: "x \<in> set ranked"
        using x by (auto simp: h_def v_def dest: in_set_butlastD)
      have xe: "last v = x" by (rule inj_onD [OF inj e lr xr])
      have dv: "distinct v" using dist by (simp add: v_def distinct_map)
      have "v = butlast v @ [last v]" using ne by simp
      with dv have "last v \<notin> set (butlast v)"
        by (metis distinct_append disjoint_iff list.set_intros(1))
      with x xe lo show False by (auto simp: h_def)
    qed
    from l c d show ?thesis by blast
  qed
  have "set (Slide.tags (createVerticalSlide p q)) = set (Photo.tags p) \<union> set (Photo.tags q)"
    by (simp add: createVerticalSlide_def set_from_array_set)
  moreover have "distinct (Slide.tags (createVerticalSlide p q))"
    by (simp add: createVerticalSlide_def set_from_array_distinct)
  moreover note b ph odd_part photos_createVerticalSlide [of p q]
  ultimately show ?thesis
    unfolding Let_def v_def [symmetric] h_def [symmetric] hs_def [symmetric] vs_def [symmetric]
    by blast
qed

text \<open>
  C5.  The slide sequence returned by \<open>solve\<close> is the list of horizontal slides in
  the order the builder produced them, followed by the list of vertical slides in the
  order the builder produced them.
\<close>

theorem C5_block_concatenation:
  "\<exists>hs vs. buildSlides (rankPhotos (allTags g) (Globals.photos g)) = Inr (hs, vs)
     \<and> hs = map createHorizontalSlide
              (filter (\<lambda>p. orientation p = ''H'') (rankPhotos (allTags g) (Globals.photos g)))
     \<and> solve g = Inr (hs @ vs, g\<lparr>Globals.photos := rankPhotos (allTags g) (Globals.photos g)\<rparr>)"
  by (simp add: solve_def buildSlides_eq Let_def)

lemma scored_fixed: "tagScore p = calculateTagScore tm p \<Longrightarrow> scored tm p = p"
  by (simp add: scored_def)

text \<open>
  C4.  The ranked catalog is in descending order of tag score, where the tag score of a
  photo is the sum over its tags of the popularity of the tag; it holds the photos of
  the catalog (up to the \<^verbatim>\<open>tagScore\<close> field the comparator writes), and the photos
  of equal tag score stand in their input order.  When the
  catalog has at least two photos the comparator has written the tag score into every
  photo; a shorter catalog is returned as it is.
\<close>

theorem C4_rank_descending_stable:
  "(let ranked = rankPhotos tm catalog in
      sorted_wrt (\<lambda>p q. calculateTagScore tm q \<le> calculateTagScore tm p) ranked
    \<and> mset (map (scored tm) ranked) = mset (map (scored tm) catalog)
    \<and> (length catalog < 2 \<longrightarrow> ranked = catalog)
    \<and> (2 \<le> length catalog \<longrightarrow>
          (\<forall>p\<in>set ranked. tagScore p = calculateTagScore tm p)
        \<and> sorted_wrt (\<lambda>p q. tagScore q \<le> tagScore p) ranked
        \<and> (\<forall>c. filter (\<lambda>p. tagScore p = c) ranked =
                 map (scored tm) (filter (\<lambda>p. calculateTagScore tm p = c) catalog))))
   \<and> calculateTagScore tm p = (\<Sum>t\<leftarrow>Photo.tags p. popularity tm t)"
proof -
  define ranked where "ranked = rankPhotos tm catalog"
  have s: "sorted_wrt (\<lambda>p q. calculateTagScore tm q \<le> calculateTagScore tm p) ranked"
    unfolding ranked_def rankPhotos_def by (rule sorted_array_sort)
  have m: "mset (map (scored tm) ranked) = mset (map (scored tm) catalog)"
    unfolding ranked_def rankPhotos_def by (rule mset_array_sort)
  have short: "ranked = catalog" if "length catalog < 2"
    unfolding ranked_def rankPhotos_def using that by (rule array_sort_short)
  have long: "(\<forall>p\<in>set ranked. tagScore p = calculateTagScore tm p)
        \<and> sorted_wrt (\<lambda>p q. tagScore q \<le> tagScore p) ranked
        \<and> (\<forall>c. filter (\<lambda>p. tagScore p = c) ranked =
                 map (scored tm) (filter (\<lambda>p. calculateTagScore tm p = c) catalog))"
    if l: "2 \<le> length catalog"
  proof -
    have w: "\<forall>p\<in>set ranked. tagScore p = calculateTagScore tm p"
      using written_array_sort_aux [of tm catalog] l by (simp add: ranked_def rankPhotos_def)
    have s': "sorted_wrt (\<lambda>p q. tagScore q \<le> tagScore p) ranked"
      using s w by (auto simp: sorted_wrt_iff_nth_less)
    have st: "filter (\<lambda>p. tagScore p = c) ranked =
        map (scored tm) (filter (\<lambda>p. calculateTagScore tm p = c) catalog)" for c
    proof -
      have "filter (\<lambda>p. tagScore p = c) ranked = filter (\<lambda>p. calculateTagScore tm p = c) ranked"
        using w by (intro filter_cong) auto
      also have "\<dots> = map (scored tm) (filter (\<lambda>p. calculateTagScore tm p = c) ranked)"
        using w by (intro map_idI [symmetric]) (simp add: scored_fixed)
      also have "\<dots> = map (scored tm) (filter (\<lambda>p. calculateTagScore tm p = c) catalog)"
        unfolding ranked_def rankPhotos_def by (rule stable_array_sort)
      finally show ?thesis .
    qed
    from w s' st show ?thesis by blast
  qed
  from s m short long calculateTagScore_sum [of tm p] show ?thesis
    unfolding Let_def ranked_def [symmetric] by blast
qed


lemma solve_ids:
  "\<exists>sl. solve g = Inr (sl, g\<lparr>Globals.photos := rankPhotos (allTags g) (Globals.photos g)\<rparr>) \<and>
     concat (map slideIds sl) =
       map photo_id (filter (\<lambda>p. orientation p = ''H'') (rankPhotos (allTags g) (Globals.photos g))) @
       map photo_id (take (2 * (length (filter (\<lambda>p. orientation p = ''V'') (rankPhotos (allTags g) (Globals.photos g))) div 2))
         (filter (\<lambda>p. orientation p = ''V'') (rankPhotos (allTags g) (Globals.photos g))))"
proof -
  define r where "r = rankPhotos (allTags g) (Globals.photos g)"
  define v where "v = filter (\<lambda>p. orientation p = ''V'') r"
  define hs where "hs = map createHorizontalSlide (filter (\<lambda>p. orientation p = ''H'') r)"
  define vs where "vs = map (\<lambda>k. createVerticalSlide (v ! (2 * k)) (v ! (2 * k + 1))) [0..<length v div 2]"
  have "solve g = Inr (hs @ vs, g\<lparr>Globals.photos := r\<rparr>)"
    by (simp add: solve_def buildSlides_eq Let_def r_def v_def hs_def vs_def)
  moreover have "concat (map slideIds hs) = map photo_id (filter (\<lambda>p. orientation p = ''H'') r)"
    unfolding hs_def by (rule concat_slideIds_horizontal)
  moreover have "concat (map slideIds vs) = map photo_id (take (2 * (length v div 2)) v)"
    unfolding concat_slideIds vs_def concat_photos_vertical ..
  ultimately show ?thesis
    unfolding r_def [symmetric] v_def [symmetric] by simp
qed

text \<open>
  C8, amended.  For every catalog whose photo ids are pairwise distinct and whose
  photos all have orientation \<^verbatim>\<open>H\<close> or \<^verbatim>\<open>V\<close>: \<open>solve\<close> returns a slide
  sequence in which no photo id occurs twice and every id is one of the catalog; when
  the number of vertical photos is even every photo id of the catalog occurs in exactly
  one slide, and when it is odd exactly one vertical photo occurs in no slide and every
  other photo id occurs in exactly one slide.
\<close>

theorem C8_partition_amended:
  assumes dist: "distinct (map photo_id (Globals.photos g))"
    and hv: "\<forall>p\<in>set (Globals.photos g). orientation p = ''H'' \<or> orientation p = ''V''"
  shows "\<exists>sl g'. solve g = Inr (sl, g')
      \<and> distinct (concat (map slideIds sl))
      \<and> set (concat (map slideIds sl)) \<subseteq> set (map photo_id (Globals.photos g))
      \<and> (even (length (filter (\<lambda>p. orientation p = ''V'') (Globals.photos g))) \<longrightarrow>
           (\<forall>i\<in>set (map photo_id (Globals.photos g)). occurrences i sl = 1))
      \<and> (odd (length (filter (\<lambda>p. orientation p = ''V'') (Globals.photos g))) \<longrightarrow>
           (\<exists>d\<in>set (map photo_id (filter (\<lambda>p. orientation p = ''V'') (Globals.photos g))).
              occurrences d sl = 0 \<and>
              (\<forall>i\<in>set (map photo_id (Globals.photos g)). i \<noteq> d \<longrightarrow> occurrences i sl = 1)))"
proof -
  define ps where "ps = Globals.photos g"
  define r where "r = rankPhotos (allTags g) ps"
  define h where "h = filter (\<lambda>p. orientation p = ''H'') r"
  define v where "v = filter (\<lambda>p. orientation p = ''V'') r"
  define w where "w = take (2 * (length v div 2)) v"
  obtain sl where sol: "solve g = Inr (sl, g\<lparr>Globals.photos := r\<rparr>)"
    and ids: "concat (map slideIds sl) = map photo_id h @ map photo_id w"
    using solve_ids [of g] unfolding ps_def r_def h_def v_def w_def by blast
  have mr: "mset (map photo_id r) = mset (map photo_id ps)"
    unfolding r_def by (rule rankPhotos_ids)
  have mv: "mset (map photo_id v) = mset (map photo_id (filter (\<lambda>p. orientation p = ''V'') ps))"
    unfolding v_def r_def by (rule rankPhotos_ids_of)
  have lv: "length v = length (filter (\<lambda>p. orientation p = ''V'') ps)"
    using mv by (metis length_map size_mset)
  have sv: "set (map photo_id v) = set (map photo_id (filter (\<lambda>p. orientation p = ''V'') ps))"
    using mv by (rule mset_eq_setD)
  have dr: "distinct (map photo_id r)"
    using dist mr unfolding ps_def by (metis mset_eq_imp_distinct_iff)
  have sr: "set (map photo_id r) = set (map photo_id ps)"
    using mr by (rule mset_eq_setD)
  have inj: "inj_on photo_id (set r)" and drr: "distinct r"
    using dr by (simp_all add: distinct_map)
  have "orientation ` set r = orientation ` set ps"
    unfolding r_def by (rule rankPhotos_orientations)
  then have "\<forall>p\<in>set r. \<exists>q\<in>set ps. orientation p = orientation q"
    by (metis imageE imageI)
  with hv have hvr: "\<forall>p\<in>set r. orientation p = ''H'' \<or> orientation p = ''V''"
    unfolding ps_def by metis
  have dh: "distinct (map photo_id h)"
    unfolding h_def using dr by (rule distinct_map_filter)
  have dv: "distinct (map photo_id v)"
    unfolding v_def using dr by (rule distinct_map_filter)
  have dw: "distinct (map photo_id w)"
    unfolding w_def take_map [symmetric] using dv by (rule distinct_take)
  have wv: "set w \<subseteq> set v" unfolding w_def by (rule set_take_subset)
  have disj: "set (map photo_id h) \<inter> set (map photo_id v) = {}"
  proof (rule ccontr)
    assume "set (map photo_id h) \<inter> set (map photo_id v) \<noteq> {}"
    then obtain p q where pq: "p \<in> set h" "q \<in> set v" and e: "photo_id p = photo_id q"
      by auto
    from pq have pr: "p \<in> set r" and qr: "q \<in> set r"
      and po: "orientation p = ''H''" and qo: "orientation q = ''V''"
      by (simp_all add: h_def v_def)
    have "p = q" by (rule inj_onD [OF inj e pr qr])
    with po qo show False by simp
  qed
  have dids: "distinct (concat (map slideIds sl))"
    unfolding ids using dh dw disj wv by auto
  have hvset: "set (map photo_id r) = set (map photo_id h) \<union> set (map photo_id v)"
    using hvr by (auto simp: h_def v_def)
  have sub: "set (concat (map slideIds sl)) \<subseteq> set (map photo_id ps)"
    unfolding ids sr [symmetric] hvset using wv by auto
  have ev: "\<forall>i\<in>set (map photo_id ps). occurrences i sl = 1" if e: "even (length v)"
  proof
    fix i assume i: "i \<in> set (map photo_id ps)"
    from e have "w = v" unfolding w_def by (subst take_even_odd) simp
    with i have "i \<in> set (concat (map slideIds sl))"
      unfolding ids sr [symmetric] hvset by simp
    with dids show "occurrences i sl = 1" by (rule occurrences_one)
  qed
  have od: "\<exists>d\<in>set (map photo_id v). occurrences d sl = 0 \<and>
              (\<forall>i\<in>set (map photo_id ps). i \<noteq> d \<longrightarrow> occurrences i sl = 1)"
    if o: "odd (length v)"
  proof -
    from o have ne: "v \<noteq> []" by auto
    from o have wb: "w = butlast v" unfolding w_def by (subst take_even_odd) simp
    have vb: "v = w @ [last v]" using ne wb by simp
    have lin: "photo_id (last v) \<in> set (map photo_id v)" using ne by simp
    have "distinct (map photo_id w @ [photo_id (last v)])"
      using dv by (subst (asm) vb) simp
    then have nw: "photo_id (last v) \<notin> set (map photo_id w)" by simp
    have nh: "photo_id (last v) \<notin> set (map photo_id h)" using disj lin by blast
    have z: "occurrences (photo_id (last v)) sl = 0"
      by (rule occurrences_zero) (use nw nh in \<open>simp add: ids\<close>)
    have one: "occurrences i sl = 1" if i: "i \<in> set (map photo_id ps)" and n: "i \<noteq> photo_id (last v)" for i
    proof -
      from i have "i \<in> set (map photo_id h) \<or> i \<in> set (map photo_id v)"
        unfolding sr [symmetric] hvset by simp
      moreover have "set (map photo_id v) = set (map photo_id w) \<union> {photo_id (last v)}"
        by (subst vb) simp
      ultimately have "i \<in> set (concat (map slideIds sl))"
        using n unfolding ids by auto
      with dids show ?thesis by (rule occurrences_one)
    qed
    from lin z one show ?thesis by blast
  qed
  show ?thesis
    apply (rule exI [of _ sl], rule exI [of _ "g\<lparr>Globals.photos := r\<rparr>"])
    using sol dids sub ev od unfolding lv sv ps_def [symmetric] by blast
qed



section \<open>Properties of the reader\<close>



text \<open>Rounding to binary64.\<close>

lemma bitLength_0 [simp]: "bitLength 0 = 0"
  by (simp add: bitLength.simps)

lemma bitLength_bounds: "0 < n \<Longrightarrow> 2 ^ (bitLength n - 1) \<le> n \<and> n < 2 ^ bitLength n"
proof (induction n rule: bitLength.induct)
  case (1 n)
  show ?case
  proof (cases "n div 2 = 0")
    case True
    with "1.prems" have "n = 1" by (simp add: div_eq_0_iff) 
    then show ?thesis by (simp add: bitLength.simps)
  next
    case False
    then have pos: "0 < n div 2" by simp
    from "1.prems" have n0: "n \<noteq> 0" by simp
    from "1.IH" [OF n0 pos] have lo: "2 ^ (bitLength (n div 2) - 1) \<le> n div 2"
      and hi: "n div 2 < 2 ^ bitLength (n div 2)" by simp_all
    have bl: "bitLength n = Suc (bitLength (n div 2))"
      using n0 by (subst bitLength.simps) simp
    have blpos: "0 < bitLength (n div 2)"
      using pos by (subst bitLength.simps) simp
    have "2 ^ (bitLength n - 1) = 2 * 2 ^ (bitLength (n div 2) - 1)"
      using blpos by (simp add: bl flip: power_Suc)
    also have "\<dots> \<le> 2 * (n div 2)" using lo by simp
    also have "\<dots> \<le> n" by simp
    finally have a: "2 ^ (bitLength n - 1) \<le> n" .
    have "n < 2 * (n div 2) + 2" by presburger
    also have "\<dots> \<le> 2 * 2 ^ bitLength (n div 2)" using hi by simp
    finally have "n < 2 ^ bitLength n" by (simp add: bl)
    with a show ?thesis ..
  qed
qed

lemma bitLength_pos: "0 < n \<Longrightarrow> 0 < bitLength n"
  by (subst bitLength.simps) simp

lemma bitLength_le: "0 < n \<Longrightarrow> n < 2 ^ k \<Longrightarrow> bitLength n \<le> k"
proof (rule ccontr)
  assume n: "0 < n" and lt: "n < 2 ^ k" and "\<not> bitLength n \<le> k"
  then have "k \<le> bitLength n - 1" by simp
  then have "(2::nat) ^ k \<le> 2 ^ (bitLength n - 1)" by (rule power_increasing) simp
  also have "\<dots> \<le> n" using bitLength_bounds [OF n] by simp
  finally show False using lt by simp
qed

lemma binaryExponent_bounds:
  assumes "0 < a" "0 < b"
  shows "(2::rat) powi binaryExponent a b \<le> of_nat a / of_nat b"
    and "of_nat a / of_nat b < (2::rat) powi (binaryExponent a b + 1)"
proof -
  define la where "la = bitLength a"
  define lb where "lb = bitLength b"
  define d where "d = int la - int lb"
  have la: "2 ^ (la - 1) \<le> a" "a < 2 ^ la" and lb: "2 ^ (lb - 1) \<le> b" "b < 2 ^ lb"
    using bitLength_bounds assms by (simp_all add: la_def lb_def)
  have lap: "0 < la" and lbp: "0 < lb"
    using bitLength_pos assms by (simp_all add: la_def lb_def)
  have bpos: "(0::rat) < of_nat b" using assms by simp
  have pw: "(2::rat) powi (int k - 1) = 2 ^ (k - 1)" if "0 < k" for k
  proof -
    from that have "int k - 1 = int (k - 1)" by simp
    then show ?thesis by (simp only: power_int_of_nat)
  qed
  have cast: "(of_nat (2 ^ k) :: rat) = 2 ^ k" for k by simp
  have ra: "(2::rat) powi (int la - 1) \<le> of_nat a" "(of_nat a :: rat) < 2 powi int la"
  proof -
    have "(of_nat (2 ^ (la - 1)) :: rat) \<le> of_nat a" using la(1) by (simp only: of_nat_le_iff)
    then show "(2::rat) powi (int la - 1) \<le> of_nat a" by (simp only: pw [OF lap] cast)
    have "(of_nat a :: rat) < of_nat (2 ^ la)" using la(2) by (simp only: of_nat_less_iff)
    then show "(of_nat a :: rat) < 2 powi int la" by (simp only: power_int_of_nat cast)
  qed
  have rb: "(2::rat) powi (int lb - 1) \<le> of_nat b" "(of_nat b :: rat) < 2 powi int lb"
  proof -
    have "(of_nat (2 ^ (lb - 1)) :: rat) \<le> of_nat b" using lb(1) by (simp only: of_nat_le_iff)
    then show "(2::rat) powi (int lb - 1) \<le> of_nat b" by (simp only: pw [OF lbp] cast)
    have "(of_nat b :: rat) < of_nat (2 ^ lb)" using lb(2) by (simp only: of_nat_less_iff)
    then show "(of_nat b :: rat) < 2 powi int lb" by (simp only: power_int_of_nat cast)
  qed
  have up: "(of_nat a :: rat) < 2 powi (d + 1) * of_nat b"
  proof -
    have "(of_nat a :: rat) < 2 powi int la" by (rule ra(2))
    also have "\<dots> = 2 powi ((d + 1) + (int lb - 1))"
      by (simp add: d_def)
    also have "\<dots> = 2 powi (d + 1) * 2 powi (int lb - 1)"
      by (rule power_int_add) simp
    also have "\<dots> \<le> 2 powi (d + 1) * of_nat b"
      using rb(1) by (intro mult_left_mono) simp_all
    finally show ?thesis .
  qed
  have low: "(2::rat) powi (d - 1) * of_nat b \<le> of_nat a"
  proof -
    have "(2::rat) powi (d - 1) * of_nat b \<le> 2 powi (d - 1) * 2 powi int lb"
      using rb(2) by (intro mult_left_mono) simp_all
    also have "\<dots> = 2 powi ((d - 1) + int lb)"
      by (rule power_int_add [symmetric]) simp
    also have "\<dots> = 2 powi (int la - 1)"
      by (simp add: d_def)
    also have "\<dots> \<le> of_nat a" by (rule ra(1))
    finally show ?thesis .
  qed
  have e: "binaryExponent a b = (if (2::rat) powi d * of_nat b \<le> of_nat a then d else d - 1)"
    by (simp add: binaryExponent_def Let_def d_def la_def lb_def)
  show "(2::rat) powi binaryExponent a b \<le> of_nat a / of_nat b"
    using low bpos by (simp add: e pos_le_divide_eq)
  show "of_nat a / of_nat b < (2::rat) powi (binaryExponent a b + 1)"
    using up bpos by (auto simp: e pos_divide_less_eq not_le)
qed


lemma power_int_two_less: "(2::rat) powi m \<le> q \<Longrightarrow> q < 2 powi n \<Longrightarrow> m < n"
proof (rule ccontr)
  assume a: "(2::rat) powi m \<le> q" and b: "q < 2 powi n" and "\<not> m < n"
  then have "n \<le> m" by simp
  then have "(2::rat) powi n \<le> 2 powi m" by (intro power_int_increasing) simp_all
  with a b show False by simp
qed

lemma binaryExponent_unique:
  assumes "0 < a" "0 < b"
    and "(2::rat) powi n \<le> of_nat a / of_nat b" "of_nat a / of_nat b < (2::rat) powi (n + 1)"
  shows "binaryExponent a b = n"
proof -
  have "binaryExponent a b < n + 1"
    using binaryExponent_bounds(1) [OF assms(1,2)] assms(4) by (rule power_int_two_less)
  moreover have "n < binaryExponent a b + 1"
    using assms(3) binaryExponent_bounds(2) [OF assms(1,2)] by (rule power_int_two_less)
  ultimately show ?thesis by simp
qed

lemma roundHalfEven_of_int [simp]: "roundHalfEven (of_int z) = z"
  by (simp add: roundHalfEven_def)

lemma roundHalfEven_ge: "of_int z \<le> x \<Longrightarrow> z \<le> roundHalfEven x"
proof -
  assume "of_int z \<le> x"
  then have "z \<le> \<lfloor>x\<rfloor>" by (simp add: le_floor_iff)
  then show ?thesis by (auto simp: roundHalfEven_def Let_def)
qed

lemma roundHalfEven_small: "0 \<le> x \<Longrightarrow> x \<le> 1 / 2 \<Longrightarrow> roundHalfEven x = 0"
proof -
  assume a: "0 \<le> x" "x \<le> 1 / 2"
  then have "\<lfloor>x\<rfloor> = 0" by (simp add: floor_eq_iff)
  with a show ?thesis by (auto simp: roundHalfEven_def Let_def)
qed

text \<open>A natural number below \<open>2^53\<close> is a binary64 number.\<close>

lemma toBinary64_nat:
  assumes "k < 2 ^ 53"
  shows "toBinary64 k 1 = Num (of_nat k)"
proof (cases "k = 0")
  case True
  then show ?thesis by (simp add: toBinary64_def)
next
  case False
  then have kpos: "0 < k" by simp
  define l where "l = bitLength k"
  have lpos: "0 < l" and lle: "l \<le> 53"
    using bitLength_pos [OF kpos] bitLength_le [OF kpos assms] by (simp_all add: l_def)
  have lo: "2 ^ (l - 1) \<le> k" and hi: "k < 2 ^ l"
    using bitLength_bounds [OF kpos] by (simp_all add: l_def)
  have c1: "(2::rat) powi (int l - 1) \<le> of_nat k / of_nat 1"
  proof -
    have "(of_nat (2 ^ (l - 1)) :: rat) \<le> of_nat k" using lo by (simp only: of_nat_le_iff)
    moreover have "int l - 1 = int (l - 1)" using lpos by simp
    then have "(2::rat) powi (int l - 1) = 2 ^ (l - 1)" by (simp only: power_int_of_nat)
    ultimately show ?thesis by simp
  qed
  have c2: "of_nat k / of_nat 1 < (2::rat) powi (int l - 1 + 1)"
  proof -
    have "(of_nat k :: rat) < of_nat (2 ^ l)" using hi by (simp only: of_nat_less_iff)
    then show ?thesis by simp
  qed
  have e: "binaryExponent k 1 = int l - 1"
    by (rule binaryExponent_unique [OF kpos _ c1 c2]) simp
  have m: "max (int l - 1) (- 1022) = int l - 1" using lpos by simp
  define s where "s = 53 - l"
  have ex: "int l - 1 - 52 = - int s" using lle by (simp add: s_def)
  have ulp: "(2::rat) powi (int l - 1 - 52) = 1 / 2 ^ s"
    by (simp only: ex power_int_minus power_int_of_nat inverse_eq_divide)
  have q: "of_nat k / of_nat 1 / (1 / 2 ^ s) = (of_int (int (k * 2 ^ s)) :: rat)"
    by simp
  have bk: "(of_int (int (k * 2 ^ s)) :: rat) * (1 / 2 ^ s) = of_nat k"
    by simp
  have "(of_nat k :: rat) < of_nat (2 ^ 53)" using assms by (simp only: of_nat_less_iff)
  also have "\<dots> \<le> 2 powi 1024" by simp
  finally have small: "\<not> (2::rat) powi 1024 \<le> of_nat k" by simp
  show ?thesis
    unfolding toBinary64_def Let_def e m ulp q roundHalfEven_of_int bk
    using False small by simp
qed

lemma toBinary64_overflow:
  assumes "0 < b" and big: "(2::rat) powi 1024 \<le> of_nat a / of_nat b"
  shows "toBinary64 a b = PosInfinity"
proof -
  have apos: "0 < a"
  proof (rule ccontr)
    assume "\<not> 0 < a"
    then have "a = 0" by simp
    with big show False by simp
  qed
  define E where "E = binaryExponent a b"
  have lo: "(2::rat) powi E \<le> of_nat a / of_nat b" and hi: "of_nat a / of_nat b < (2::rat) powi (E + 1)"
    using binaryExponent_bounds [OF apos assms(1)] by (simp_all add: E_def)
  from big hi have "1024 < E + 1" by (rule power_int_two_less)
  then have E: "1024 \<le> E" by simp
  then have m: "max E (- 1022) = E" by simp
  define ulp where "ulp = (2::rat) powi (E - 52)"
  have upos: "0 < ulp" by (simp add: ulp_def)
  have "(2::rat) powi E = 2 powi 52 * 2 powi (E - 52)"
    by (subst power_int_add [symmetric]) simp_all
  then have split: "(2::rat) powi E = of_int (2 ^ 52) * ulp" by (simp add: ulp_def)
  have "of_int (2 ^ 52) * ulp \<le> of_nat a / of_nat b"
    using lo by (simp only: split)
  then have "of_int (2 ^ 52) \<le> of_nat a / of_nat b / ulp"
    by (simp only: pos_le_divide_eq [OF upos])
  then have "2 ^ 52 \<le> roundHalfEven (of_nat a / of_nat b / ulp)" by (rule roundHalfEven_ge)
  then have "(of_int (2 ^ 52) :: rat) \<le> of_int (roundHalfEven (of_nat a / of_nat b / ulp))"
    by (simp only: of_int_le_iff)
  then have "of_int (2 ^ 52) * ulp \<le> of_int (roundHalfEven (of_nat a / of_nat b / ulp)) * ulp"
    using upos by (intro mult_right_mono) simp_all
  then have "(2::rat) powi E \<le> of_int (roundHalfEven (of_nat a / of_nat b / ulp)) * ulp"
    by (simp only: split)
  moreover have "(2::rat) powi 1024 \<le> 2 powi E"
    using E by (intro power_int_increasing) simp_all
  ultimately have "(2::rat) powi 1024 \<le> of_int (roundHalfEven (of_nat a / of_nat b / ulp)) * ulp"
    by (rule order_trans [rotated])
  moreover have "a \<noteq> 0" using apos by simp
  ultimately show ?thesis
    unfolding toBinary64_def Let_def E_def [symmetric] m ulp_def [symmetric]
    by (simp only: if_True if_False)
qed

lemma toBinary64_underflow:
  assumes "0 < b" and tiny: "of_nat a / of_nat b \<le> (2::rat) powi (- 1075)"
  shows "toBinary64 a b = Num 0"
proof (cases "a = 0")
  case True
  then show ?thesis by (simp add: toBinary64_def)
next
  case False
  then have apos: "0 < a" by simp
  define E where "E = binaryExponent a b"
  have lo: "(2::rat) powi E \<le> of_nat a / of_nat b"
    using binaryExponent_bounds [OF apos assms(1)] by (simp_all add: E_def)
  have "(2::rat) powi (- 1075) < 2 powi (- 1074)"
    by (intro power_int_strict_increasing) simp_all
  with tiny have "of_nat a / of_nat b < (2::rat) powi (- 1074)" by (rule le_less_trans)
  with lo have "E < - 1074" by (rule power_int_two_less)
  then have m: "max E (- 1022) = - 1022" by simp
  have ex: "(- 1022 :: int) - 52 = - 1074" by simp
  define ulp where "ulp = (2::rat) powi (- 1074)"
  have upos: "0 < ulp" by (simp add: ulp_def)
  have "(2::rat) powi (- 1075) = 2 powi (- 1) * 2 powi (- 1074)"
    by (subst power_int_add [symmetric]) simp_all
  then have half: "(2::rat) powi (- 1075) = 1 / 2 * ulp"
    by (simp add: ulp_def power_int_minus)
  have "of_nat a / of_nat b \<le> 1 / 2 * ulp"
    using tiny by (simp only: half)
  then have "of_nat a / of_nat b / ulp \<le> 1 / 2"
    by (simp only: pos_divide_le_eq [OF upos])
  moreover have "0 \<le> of_nat a / of_nat b / ulp" using upos by simp
  ultimately have "roundHalfEven (of_nat a / of_nat b / ulp) = 0" by (rule roundHalfEven_small [rotated])
  then show ?thesis
    unfolding toBinary64_def Let_def E_def [symmetric] m ex ulp_def [symmetric]
    using False by simp
qed

lemma roundHalfEven_near:
  assumes "\<bar>x - of_int r\<bar> < 1 / 2"
  shows "roundHalfEven x = r"
proof (cases "of_int r \<le> x")
  case True
  with assms have "\<lfloor>x\<rfloor> = r" by (simp add: floor_eq_iff abs_less_iff)
  with assms True show ?thesis by (simp add: roundHalfEven_def Let_def abs_less_iff)
next
  case False
  with assms have f: "\<lfloor>x\<rfloor> = r - 1" by (simp add: floor_eq_iff abs_less_iff)
  from assms False have "1 / 2 < x - of_int (r - 1)" by (simp add: abs_less_iff)
  with f show ?thesis by (simp add: roundHalfEven_def Let_def)
qed

lemma toBinary64_normal:
  assumes "0 < a" "0 < b" "- 1022 \<le> E"
    and "(2::rat) powi E \<le> of_nat a / of_nat b" "of_nat a / of_nat b < (2::rat) powi (E + 1)"
    and "\<bar>of_nat a / of_nat b / (2::rat) powi (E - 52) - of_int r\<bar> < 1 / 2"
    and "of_int r * (2::rat) powi (E - 52) < 2 powi 1024"
  shows "toBinary64 a b = Num (of_int r * 2 powi (E - 52))"
proof -
  have e: "binaryExponent a b = E"
    using assms(1,2,4,5) by (rule binaryExponent_unique)
  have m: "max E (- 1022) = E" using assms(3) by simp
  have r: "roundHalfEven (of_nat a / of_nat b / 2 powi (E - 52)) = r"
    using assms(6) by (rule roundHalfEven_near)
  have n: "\<not> (2::rat) powi 1024 \<le> of_int r * 2 powi (E - 52)"
    using assms(7) by (simp only: not_le)
  have "a \<noteq> 0" using assms(1) by simp
  then show ?thesis
    unfolding toBinary64_def Let_def e m r
    using n by (simp only: if_False)
qed

lemma toBinary64_example_tenth: "toBinary64 1 10 = Num (3602879701896397 / 2 ^ 55)"
proof -
  have "toBinary64 1 10 = Num (of_int 7205759403792794 * 2 powi (- 4 - 52))"
    by (rule toBinary64_normal) (simp_all add: power_int_minus abs_less_iff)
  then show ?thesis by (simp add: power_int_minus)
qed

lemma toBinary64_example_rounding: "toBinary64 20000000000000000001 (10 ^ 19) = Num 2"
proof -
  have "toBinary64 20000000000000000001 (10 ^ 19) = Num (of_int (2 ^ 52) * 2 powi (1 - 52))"
    by (rule toBinary64_normal) (simp_all add: power_int_minus abs_less_iff)
  then show ?thesis by (simp add: power_int_minus)
qed

lemma toBinary64_example_overflow: "toBinary64 (10 ^ 400) 1 = PosInfinity"
  by (rule toBinary64_overflow) simp_all

lemma toBinary64_example_underflow: "toBinary64 1 (10 ^ 400) = Num 0"
  by (rule toBinary64_underflow) (simp_all add: power_int_minus)

lemma readPhoto_loop_NaN: "readPhoto_loop parts NaN i acc = Some acc"
  by (subst readPhoto_loop.simps) (simp add: less_num_def)

lemma readPhoto_loop_NegInfinity: "readPhoto_loop parts NegInfinity i acc = Some acc"
  by (subst readPhoto_loop.simps) (simp add: less_num_def)

lemma less_num_Num: "less_num i (Num q) \<longleftrightarrow> i < nat \<lceil>q\<rceil>"
proof -
  have "of_nat i < q \<longleftrightarrow> int i < \<lceil>q\<rceil>"
    by (simp add: less_ceiling_iff)
  then show ?thesis by (auto simp: less_num_def)
qed

lemma increment_le: "i \<le> 2 ^ 53 \<Longrightarrow> increment i \<le> 2 ^ 53"
  by (simp add: increment_def)

text \<open>A tag count of at most \<open>2^53\<close>: the loop runs \<open>\<lceil>q\<rceil>\<close> times and returns.\<close>

lemma readPhoto_loop_Num:
  assumes "q \<le> 2 ^ 53"
  shows "readPhoto_loop parts (Num q) i acc =
     Some (acc @ map (\<lambda>j. lookup parts (j + 2)) [i..<nat \<lceil>q\<rceil>])"
proof -
  have "(2::rat) ^ 53 = of_int (2 ^ 53)" by simp
  with assms have "q \<le> of_int (2 ^ 53)" by (simp only:)
  then have "\<lceil>q\<rceil> \<le> 2 ^ 53" by (simp only: ceiling_le_iff)
  then have "nat \<lceil>q\<rceil> \<le> nat (2 ^ 53)" by (rule nat_mono)
  then have bound: "nat \<lceil>q\<rceil> \<le> 2 ^ 53" by simp
  show ?thesis
  proof (induction "nat \<lceil>q\<rceil> - i" arbitrary: i acc)
    case 0
    then have "\<not> less_num i (Num q)" by (simp add: less_num_Num)
    moreover from 0 have "[i..<nat \<lceil>q\<rceil>] = []" by simp
    ultimately show ?case by (subst readPhoto_loop.simps) simp
  next
    case (Suc k)
    then have lt: "i < nat \<lceil>q\<rceil>" by simp
    then have l: "less_num i (Num q)" by (simp add: less_num_Num)
    from lt bound have inc: "increment i = i + 1" by (simp add: increment_def)
    from Suc have "k = nat \<lceil>q\<rceil> - (i + 1)" by simp
    then have "readPhoto_loop parts (Num q) (i + 1) (acc @ [lookup parts (i + 2)]) =
        Some ((acc @ [lookup parts (i + 2)]) @ map (\<lambda>j. lookup parts (j + 2)) [i + 1..<nat \<lceil>q\<rceil>])"
      by (rule Suc.hyps(1))
    moreover have "[i..<nat \<lceil>q\<rceil>] = i # [i + 1..<nat \<lceil>q\<rceil>]"
      using lt by (simp add: upt_conv_Cons)
    ultimately show ?case
      using l inc by (subst readPhoto_loop.simps) simp
  qed
qed

text \<open>
  A tag count of \<^verbatim>\<open>Infinity\<close>, or above \<open>2^53\<close>: the loop test never fails, so the
  loop does not return.
\<close>

lemma readPhoto_loop_returns_bounded:
  assumes "readPhoto_loop parts numTags i acc = Some r"
  shows "i \<le> 2 ^ 53 \<longrightarrow> numTags \<noteq> PosInfinity \<and> (\<forall>q. numTags = Num q \<longrightarrow> q \<le> 2 ^ 53)"
proof (rule readPhoto_loop.raw_induct
    [where P = "\<lambda>parts numTags i acc r.
       i \<le> 2 ^ 53 \<longrightarrow> numTags \<noteq> PosInfinity \<and> (\<forall>q. numTags = Num q \<longrightarrow> q \<le> 2 ^ 53)",
     OF _ assms])
  fix f :: "string list \<Rightarrow> jsnum \<Rightarrow> nat \<Rightarrow> tag list \<Rightarrow> tag list option"
    and parts numTags i tags' y
  assume ih: "\<And>parts numTags i tags' y. f parts numTags i tags' = Some y \<Longrightarrow>
      i \<le> 2 ^ 53 \<longrightarrow> numTags \<noteq> PosInfinity \<and> (\<forall>q. numTags = Num q \<longrightarrow> q \<le> 2 ^ 53)"
    and step: "(if less_num i numTags
        then f parts numTags (increment i) (tags' @ [lookup parts (i + 2)])
        else Some tags') = Some y"
  show "i \<le> 2 ^ 53 \<longrightarrow> numTags \<noteq> PosInfinity \<and> (\<forall>q. numTags = Num q \<longrightarrow> q \<le> 2 ^ 53)"
  proof
    assume i: "i \<le> 2 ^ 53"
    show "numTags \<noteq> PosInfinity \<and> (\<forall>q. numTags = Num q \<longrightarrow> q \<le> 2 ^ 53)"
    proof (cases "less_num i numTags")
      case True
      with step have "f parts numTags (increment i) (tags' @ [lookup parts (i + 2)]) = Some y"
        by simp
      from ih [OF this] increment_le [OF i] show ?thesis by simp
    next
      case False
      then have "numTags \<noteq> PosInfinity" by (auto simp: less_num_def)
      moreover have "q \<le> 2 ^ 53" if "numTags = Num q" for q
      proof -
        from False that have "q \<le> of_nat i" by (simp add: less_num_def)
        also have "(of_nat i :: rat) \<le> of_nat (2 ^ 53)" using i by (simp only: of_nat_le_iff)
        finally show ?thesis by simp
      qed
      ultimately show ?thesis by blast
    qed
  qed
qed

lemma readPhoto_loop_diverges:
  assumes "numTags = PosInfinity \<or> (\<exists>q. numTags = Num q \<and> 2 ^ 53 < q)"
  shows "readPhoto_loop parts numTags 0 [] = None"
proof (cases "readPhoto_loop parts numTags 0 []")
  case None
  then show ?thesis .
next
  case (Some r)
  from readPhoto_loop_returns_bounded [OF Some] assms show ?thesis by auto
qed

text \<open>When \<^verbatim>\<open>readPhoto\<close> returns.\<close>

lemma readPhoto_returns:
  "(\<exists>p. readPhoto line n = Some p) \<longleftrightarrow>
     (case parseFloat (lookup (split_chr (CHR '' '') line) 1) of
        PosInfinity \<Rightarrow> False | Num q \<Rightarrow> q \<le> 2 ^ 53 | _ \<Rightarrow> True)"
proof (cases "parseFloat (lookup (split_chr (CHR '' '') line) 1)")
  case NaN
  then show ?thesis by (simp add: readPhoto_def Let_def readPhoto_loop_NaN)
next
  case (Num q)
  show ?thesis
  proof (cases "q \<le> 2 ^ 53")
    case True
    with Num show ?thesis by (simp add: readPhoto_def Let_def readPhoto_loop_Num)
  next
    case False
    with Num have "readPhoto_loop (split_chr (CHR '' '') line) (Num q) 0 [] = None"
      by (intro readPhoto_loop_diverges) simp
    with Num False show ?thesis by (simp add: readPhoto_def Let_def)
  qed
next
  case PosInfinity
  then have "readPhoto_loop (split_chr (CHR '' '') line) PosInfinity 0 [] = None"
    by (intro readPhoto_loop_diverges) simp
  with PosInfinity show ?thesis by (simp add: readPhoto_def Let_def)
next
  case NegInfinity
  then show ?thesis by (simp add: readPhoto_def Let_def readPhoto_loop_NegInfinity)
qed

lemma readFile_loop_returns:
  assumes "\<forall>line\<in>set ls. line \<noteq> [] \<longrightarrow> (\<exists>p. readPhoto (trim line) n = Some p)"
  shows "\<exists>g'. readFile_loop ls n g = Some g'"
  using assms
proof (induction ls arbitrary: n g)
  case Nil
  then show ?case by simp
next
  case (Cons line rest)
  have all: "\<forall>l\<in>set rest. l \<noteq> [] \<longrightarrow> (\<exists>p. readPhoto (trim l) m = Some p)" for m
  proof (intro ballI impI)
    fix l assume "l \<in> set rest" "l \<noteq> []"
    with Cons.prems have "\<exists>p. readPhoto (trim l) n = Some p" by simp
    then show "\<exists>p. readPhoto (trim l) m = Some p"
      by (simp only: readPhoto_returns)
  qed
  show ?case
  proof (cases "line = []")
    case True
    with Cons.IH [OF all] show ?thesis by simp
  next
    case False
    with Cons.prems obtain p where "readPhoto (trim line) n = Some p" by auto
    with False Cons.IH [OF all] show ?thesis by simp
  qed
qed

lemma map_of_registerTag:
  "map_of (registerTag pid t m) =
     (map_of m)(t \<mapsto> (case map_of m t of
                        Some e \<Rightarrow> e\<lparr>photoIds := photoIds e @ [pid]\<rparr>
                      | None \<Rightarrow> \<lparr>tag = t, photoIds = [pid]\<rparr>))"
  by (simp add: registerTag_def update_conv' split: option.splits)

lemma map_of_fold_registerTag:
  "map_of (fold (registerTag pid) ts m) t =
     (if count_list ts t = 0 then map_of m t
      else Some (case map_of m t of
                   Some e \<Rightarrow> e\<lparr>photoIds := photoIds e @ replicate (count_list ts t) pid\<rparr>
                 | None \<Rightarrow> \<lparr>tag = t, photoIds = replicate (count_list ts t) pid\<rparr>))"
proof (induction ts arbitrary: m)
  case Nil
  then show ?case by simp
next
  case (Cons x ts)
  show ?case
    by (cases "map_of m t")
       (simp_all add: Cons.IH map_of_registerTag replicate_app_Cons_same)
qed

lemma registrations_snoc:
  "registrations t (ps @ [p]) =
     registrations t ps @ replicate (count_list (Photo.tags p) t) (photo_id p)"
  by (simp add: registrations_def)

lemma indexed_register:
  assumes "indexed ps m"
  shows "indexed (ps @ [p]) (fold (registerTag (photo_id p)) (Photo.tags p) m)"
  unfolding indexed_def
proof
  fix t
  from assms have m: "map_of m t =
        (if registrations t ps = [] then None
         else Some \<lparr>tag = t, photoIds = registrations t ps\<rparr>)"
    by (simp add: indexed_def)
  show "map_of (fold (registerTag (photo_id p)) (Photo.tags p) m) t =
       (if registrations t (ps @ [p]) = [] then None
        else Some \<lparr>tag = t, photoIds = registrations t (ps @ [p])\<rparr>)"
    by (simp add: map_of_fold_registerTag registrations_snoc m)
qed

lemma readPhoto_id: "readPhoto line n = Some p \<Longrightarrow> photo_id p = n"
  by (auto simp: readPhoto_def Let_def split: option.splits)

lemma readFile_loop_inv:
  "readFile_loop ls n g = Some g' \<Longrightarrow>
   indexed (Globals.photos g) (allTags g) \<Longrightarrow>
   map photo_id (Globals.photos g) = [0..<n] \<Longrightarrow>
   indexed (Globals.photos g') (allTags g') \<and>
   map photo_id (Globals.photos g') = [0..<length (Globals.photos g')]"
proof (induction ls arbitrary: n g)
  case Nil
  then have "g' = g" by simp
  moreover from Nil have "length (Globals.photos g) = n"
    by (metis length_map length_upt diff_zero)
  ultimately show ?case using Nil by simp
next
  case (Cons line rest)
  show ?case
  proof (cases "line = []")
    case True
    with Cons show ?thesis by simp
  next
    case False
    with Cons.prems(1) obtain p where p: "readPhoto (trim line) n = Some p"
      and r: "readFile_loop rest (n + 1)
                \<lparr>photos = Globals.photos g @ [p],
                 allTags = fold (registerTag (photo_id p)) (Photo.tags p) (allTags g)\<rparr> = Some g'"
      by (auto split: option.splits)
    from p have pid: "photo_id p = n" by (rule readPhoto_id)
    show ?thesis
    proof (rule Cons.IH [OF r])
      show "indexed (Globals.photos \<lparr>photos = Globals.photos g @ [p],
                 allTags = fold (registerTag (photo_id p)) (Photo.tags p) (allTags g)\<rparr>)
              (allTags \<lparr>photos = Globals.photos g @ [p],
                 allTags = fold (registerTag (photo_id p)) (Photo.tags p) (allTags g)\<rparr>)"
        using Cons.prems(2) by (simp add: indexed_register)
      show "map photo_id (Globals.photos \<lparr>photos = Globals.photos g @ [p],
                 allTags = fold (registerTag (photo_id p)) (Photo.tags p) (allTags g)\<rparr>) = [0..<n + 1]"
        using Cons.prems(3) pid by simp
    qed
  qed
qed

lemma count_list_distinct: "distinct xs \<Longrightarrow> count_list xs x = (if x \<in> set xs then 1 else 0)"
  by (induction xs) auto

lemma registrations_distinct:
  "\<forall>p\<in>set ps. distinct (Photo.tags p) \<Longrightarrow>
   registrations t ps = map photo_id (filter (\<lambda>p. t \<in> set (Photo.tags p)) ps)"
  by (induction ps) (simp_all add: registrations_def count_list_distinct)

lemma digitValue_digits:
  "digitValue (CHR ''0'') = 0" "digitValue (CHR ''1'') = 1" "digitValue (CHR ''2'') = 2"
  "digitValue (CHR ''3'') = 3" "digitValue (CHR ''4'') = 4" "digitValue (CHR ''5'') = 5"
  "digitValue (CHR ''6'') = 6" "digitValue (CHR ''7'') = 7" "digitValue (CHR ''8'') = 8"
  "digitValue (CHR ''9'') = 9"
  by (simp_all add: digitValue_def)

lemma toBinary64_numeral:
  "(numeral w :: nat) < 2 ^ 53 \<Longrightarrow> toBinary64 (numeral w) (Suc 0) = Num (numeral w)"
  using toBinary64_nat [of "numeral w"] by simp

lemma toBinary64_zero: "toBinary64 0 (Suc 0) = Num 0"
  by (simp add: toBinary64_def)

lemma toBinary64_one: "toBinary64 (Suc 0) (Suc 0) = Num 1"
  using toBinary64_nat [of 1] by simp

lemma toBinary64_two: "toBinary64 (Suc (Suc 0)) (Suc 0) = Num 2"
proof -
  have e: "Suc (Suc 0) = 2" by simp
  have "toBinary64 2 1 = Num (of_nat 2)" by (rule toBinary64_nat) simp
  then show ?thesis unfolding e by simp
qed

text \<open>The values of \<^verbatim>\<open>parseFloat\<close> on three literals that are not binary64 numbers.\<close>

lemma parseFloat_example_overflow: "parseFloat (Some ''1e400'') = PosInfinity"
proof -
  have "parseFloat (Some ''1e400'') = toBinary64 (1 * 10 ^ nat 400) 1"
    by (simp add: parseFloat_def isWhiteSpace_def strUnsignedDecimalLiteral_def isDigit_def
        decimalValue_def digitValue_digits exponentPart_def signedInteger_def Let_def
        del: power_numeral nat_numeral One_nat_def)
  also have "\<dots> = PosInfinity"
    by (rule toBinary64_overflow) simp_all
  finally show ?thesis .
qed

lemma parseFloat_example_underflow: "parseFloat (Some ''1e-400'') = Num 0"
proof -
  have "parseFloat (Some ''1e-400'') = toBinary64 1 (10 ^ nat 400)"
    by (simp add: parseFloat_def isWhiteSpace_def strUnsignedDecimalLiteral_def isDigit_def
        decimalValue_def digitValue_digits exponentPart_def signedInteger_def Let_def
        del: power_numeral nat_numeral One_nat_def)
  also have "\<dots> = Num 0"
    by (rule toBinary64_underflow) (simp_all add: power_int_minus)
  finally show ?thesis .
qed

lemma parseFloat_example_rounding: "parseFloat (Some ''2.0000000000000000001'') = Num 2"
proof -
  have "parseFloat (Some ''2.0000000000000000001'') =
      toBinary64 20000000000000000001 (10 ^ nat 19)"
    by (simp add: parseFloat_def isWhiteSpace_def strUnsignedDecimalLiteral_def isDigit_def
        decimalValue_def digitValue_digits exponentPart_def signedInteger_def Let_def
        del: power_numeral nat_numeral One_nat_def)
  also have "\<dots> = Num 2"
    using toBinary64_example_rounding by simp
  finally show ?thesis .
qed

lemmas read_eval = readFile_def trim_def isWhiteSpace_def readPhoto_def parseFloat_def
  strUnsignedDecimalLiteral_def isDigit_def decimalValue_def digitValue_digits exponentPart_def
  signedInteger_def readPhoto_loop_Num readPhoto_loop_NaN lookup_def registerTag_def reset_def
  negate_def Let_def upt_conv_Cons toBinary64_numeral toBinary64_zero toBinary64_one
  toBinary64_two

text \<open>
  The reader returns when every non-empty line has a tag count that \<^verbatim>\<open>readPhoto\<close>
  can count up to.
\<close>

lemma readFile_returns:
  assumes "\<forall>line\<in>set (tl (split_chr (CHR 0x0A) data)).
             line \<noteq> [] \<longrightarrow> (\<exists>p. readPhoto (trim line) 0 = Some p)"
  shows "\<exists>g'. readFile data g = Some g'"
  unfolding readFile_def Let_def using assms by (rule readFile_loop_returns)

text \<open>
  The tag index after a file has been read: the photo ids are \<open>0, 1, \<dots>\<close> in input
  order and the entry of a tag holds the registrations of that tag (no entry for a tag
  that no photo carries).  When no photo of the file lists a tag twice, no photo id
  occurs twice in an entry and the length of the list of a tag is the number of photos
  carrying the tag.
\<close>

lemma tag_index_after_readFile:
  assumes "readFile data reset = Some g"
  shows "map photo_id (Globals.photos g) = [0..<length (Globals.photos g)]
    \<and> (\<forall>t. map_of (allTags g) t =
          (if registrations t (Globals.photos g) = [] then None
           else Some \<lparr>tag = t, photoIds = registrations t (Globals.photos g)\<rparr>))
    \<and> ((\<forall>p\<in>set (Globals.photos g). distinct (Photo.tags p)) \<longrightarrow>
         (\<forall>t. popularity (allTags g) t =
                int (card {p \<in> set (Globals.photos g). t \<in> set (Photo.tags p)}))
       \<and> (\<forall>t e. map_of (allTags g) t = Some e \<longrightarrow>
              distinct (photoIds e)
            \<and> photoIds e =
                map photo_id (filter (\<lambda>p. t \<in> set (Photo.tags p)) (Globals.photos g))))"
proof -
  define ps where "ps = Globals.photos g"
  have init: "indexed (Globals.photos reset) (allTags reset)"
    by (simp add: indexed_def reset_def registrations_def)
  have "readFile_loop (tl (split_chr (CHR 0x0A) data)) 0 reset = Some g"
    using assms by (simp add: readFile_def)
  from readFile_loop_inv [OF this init]
  have inv: "indexed ps (allTags g)" and ids: "map photo_id ps = [0..<length ps]"
    by (simp_all add: reset_def ps_def)
  from inv have m: "map_of (allTags g) t =
          (if registrations t ps = [] then None
           else Some \<lparr>tag = t, photoIds = registrations t ps\<rparr>)" for t
    by (simp add: indexed_def)
  have dps: "distinct ps"
    using ids by (metis distinct_upt distinct_map)
  have dist: "(\<forall>t. popularity (allTags g) t = int (card {p \<in> set ps. t \<in> set (Photo.tags p)}))
       \<and> (\<forall>t e. map_of (allTags g) t = Some e \<longrightarrow>
              distinct (photoIds e)
            \<and> photoIds e = map photo_id (filter (\<lambda>p. t \<in> set (Photo.tags p)) ps))"
    if d: "\<forall>p\<in>set ps. distinct (Photo.tags p)"
  proof -
    have r: "registrations t ps = map photo_id (filter (\<lambda>p. t \<in> set (Photo.tags p)) ps)" for t
      using d by (rule registrations_distinct)
    have dr: "distinct (registrations t ps)" for t
      unfolding r using ids by (metis distinct_upt distinct_map_filter)
    have lr: "length (registrations t ps) = card {p \<in> set ps. t \<in> set (Photo.tags p)}" for t
    proof -
      have "length (registrations t ps) = length (filter (\<lambda>p. t \<in> set (Photo.tags p)) ps)"
        by (simp add: r)
      also have "\<dots> = card (set (filter (\<lambda>p. t \<in> set (Photo.tags p)) ps))"
        by (rule distinct_card [symmetric]) (simp add: dps)
      finally show ?thesis by simp
    qed
    have "popularity (allTags g) t = int (card {p \<in> set ps. t \<in> set (Photo.tags p)})" for t
    proof -
      have "popularity (allTags g) t = int (length (registrations t ps))"
        by (simp add: popularity_def m)
      then show ?thesis by (simp only: lr)
    qed
    moreover have "distinct (photoIds e) \<and>
        photoIds e = map photo_id (filter (\<lambda>p. t \<in> set (Photo.tags p)) ps)"
      if "map_of (allTags g) t = Some e" for t e
      using that dr [of t] r [of t] by (auto simp: m split: if_splits)
    ultimately show ?thesis by blast
  qed
  from ids m dist show ?thesis unfolding ps_def by blast
qed


text \<open>
  A catalog of three photos with tag scores 2, 3 and 2: the two photos of score 2 keep
  their input order.
\<close>

theorem C4_rank_descending_stable_witness:
  "2 \<le> length
      [\<lparr>photo_id = 0, orientation = ''V'', tags = [Some ''c''], tagScore = 0\<rparr>,
       \<lparr>photo_id = 1, orientation = ''H'', tags = [Some ''a'', Some ''b''], tagScore = 0\<rparr>,
       \<lparr>photo_id = 2, orientation = ''H'', tags = [Some ''a''], tagScore = 0\<rparr>]
   \<and> filter (\<lambda>p. tagScore p = 2)
       (rankPhotos
          [(Some ''a'', \<lparr>tag = Some ''a'', photoIds = [1, 2]\<rparr>),
           (Some ''b'', \<lparr>tag = Some ''b'', photoIds = [1]\<rparr>),
           (Some ''c'', \<lparr>tag = Some ''c'', photoIds = [0, 3]\<rparr>)]
          [\<lparr>photo_id = 0, orientation = ''V'', tags = [Some ''c''], tagScore = 0\<rparr>,
           \<lparr>photo_id = 1, orientation = ''H'', tags = [Some ''a'', Some ''b''], tagScore = 0\<rparr>,
           \<lparr>photo_id = 2, orientation = ''H'', tags = [Some ''a''], tagScore = 0\<rparr>]) =
      [\<lparr>photo_id = 0, orientation = ''V'', tags = [Some ''c''], tagScore = 2\<rparr>,
       \<lparr>photo_id = 2, orientation = ''H'', tags = [Some ''a''], tagScore = 2\<rparr>]
   \<and> filter (\<lambda>p. tagScore p = 3)
       (rankPhotos
          [(Some ''a'', \<lparr>tag = Some ''a'', photoIds = [1, 2]\<rparr>),
           (Some ''b'', \<lparr>tag = Some ''b'', photoIds = [1]\<rparr>),
           (Some ''c'', \<lparr>tag = Some ''c'', photoIds = [0, 3]\<rparr>)]
          [\<lparr>photo_id = 0, orientation = ''V'', tags = [Some ''c''], tagScore = 0\<rparr>,
           \<lparr>photo_id = 1, orientation = ''H'', tags = [Some ''a'', Some ''b''], tagScore = 0\<rparr>,
           \<lparr>photo_id = 2, orientation = ''H'', tags = [Some ''a''], tagScore = 0\<rparr>]) =
      [\<lparr>photo_id = 1, orientation = ''H'', tags = [Some ''a'', Some ''b''], tagScore = 3\<rparr>]"
    (is "2 \<le> length ?cat \<and> filter _ (rankPhotos ?tm ?cat) = _ \<and> _")
proof -
  have l: "2 \<le> length ?cat" by simp
  from C4_rank_descending_stable [of ?tm ?cat "\<lparr>photo_id = 0, orientation = ''V'', tags = [], tagScore = 0\<rparr>"]
  have "2 \<le> length ?cat \<longrightarrow>
      (\<forall>c. filter (\<lambda>p. tagScore p = c) (rankPhotos ?tm ?cat) =
           map (scored ?tm) (filter (\<lambda>p. calculateTagScore ?tm p = c) ?cat))"
    unfolding Let_def by blast
  with l have f: "filter (\<lambda>p. tagScore p = c) (rankPhotos ?tm ?cat) =
           map (scored ?tm) (filter (\<lambda>p. calculateTagScore ?tm p = c) ?cat)" for c
    by blast
  show ?thesis
    unfolding f by (simp add: scored_def calculateTagScore_def)
qed

text \<open>Three vertical photos and one horizontal photo: one vertical slide is built.\<close>

theorem C3_vertical_pairing_witness:
  "odd (length (filter (\<lambda>p. orientation p = ''V'')
      [\<lparr>photo_id = 1, orientation = ''V'', tags = [Some ''c''], tagScore = 2\<rparr>,
       \<lparr>photo_id = 0, orientation = ''H'', tags = [Some ''a''], tagScore = 1\<rparr>,
       \<lparr>photo_id = 2, orientation = ''V'', tags = [Some ''c'', Some ''d''], tagScore = 1\<rparr>,
       \<lparr>photo_id = 3, orientation = ''V'', tags = [Some ''e''], tagScore = 0\<rparr>]))
   \<and> distinct (map photo_id
      [\<lparr>photo_id = 1, orientation = ''V'', tags = [Some ''c''], tagScore = 2\<rparr>,
       \<lparr>photo_id = 0, orientation = ''H'', tags = [Some ''a''], tagScore = 1\<rparr>,
       \<lparr>photo_id = 2, orientation = ''V'', tags = [Some ''c'', Some ''d''], tagScore = 1\<rparr>,
       \<lparr>photo_id = 3, orientation = ''V'', tags = [Some ''e''], tagScore = 0\<rparr>])
   \<and> buildSlides
      [\<lparr>photo_id = 1, orientation = ''V'', tags = [Some ''c''], tagScore = 2\<rparr>,
       \<lparr>photo_id = 0, orientation = ''H'', tags = [Some ''a''], tagScore = 1\<rparr>,
       \<lparr>photo_id = 2, orientation = ''V'', tags = [Some ''c'', Some ''d''], tagScore = 1\<rparr>,
       \<lparr>photo_id = 3, orientation = ''V'', tags = [Some ''e''], tagScore = 0\<rparr>] =
     Inr ([\<lparr>Slide.photos = [\<lparr>photo_id = 0, orientation = ''H'', tags = [Some ''a''], tagScore = 1\<rparr>],
            Slide.tags = [Some ''a'']\<rparr>],
          [\<lparr>Slide.photos = [\<lparr>photo_id = 1, orientation = ''V'', tags = [Some ''c''], tagScore = 2\<rparr>,
                             \<lparr>photo_id = 2, orientation = ''V'', tags = [Some ''c'', Some ''d''], tagScore = 1\<rparr>],
            Slide.tags = [Some ''c'', Some ''d'']\<rparr>])"
  (is "odd (length (filter _ ?R)) \<and> _ \<and> _")
proof -
  have v: "filter (\<lambda>p. orientation p = ''V'') ?R =
      [\<lparr>photo_id = 1, orientation = ''V'', tags = [Some ''c''], tagScore = 2\<rparr>,
       \<lparr>photo_id = 2, orientation = ''V'', tags = [Some ''c'', Some ''d''], tagScore = 1\<rparr>,
       \<lparr>photo_id = 3, orientation = ''V'', tags = [Some ''e''], tagScore = 0\<rparr>]"
    and h: "filter (\<lambda>p. orientation p = ''H'') ?R =
      [\<lparr>photo_id = 0, orientation = ''H'', tags = [Some ''a''], tagScore = 1\<rparr>]"
    by simp_all
  have n: "[0..<Suc 0] = [0]" by simp
  from C3_vertical_pairing [of ?R "\<lparr>photo_id = 1, orientation = ''V'', tags = [Some ''c''], tagScore = 2\<rparr>"
       "\<lparr>photo_id = 2, orientation = ''V'', tags = [Some ''c'', Some ''d''], tagScore = 1\<rparr>"]
  have "buildSlides ?R =
      Inr (map createHorizontalSlide (filter (\<lambda>p. orientation p = ''H'') ?R),
           map (\<lambda>k. createVerticalSlide (filter (\<lambda>p. orientation p = ''V'') ?R ! (2 * k))
                        (filter (\<lambda>p. orientation p = ''V'') ?R ! (2 * k + 1)))
             [0..<length (filter (\<lambda>p. orientation p = ''V'') ?R) div 2])"
    unfolding Let_def by (rule conjunct1 [OF conjunct1])
  then have "buildSlides ?R =
     Inr ([\<lparr>Slide.photos = [\<lparr>photo_id = 0, orientation = ''H'', tags = [Some ''a''], tagScore = 1\<rparr>],
            Slide.tags = [Some ''a'']\<rparr>],
          [\<lparr>Slide.photos = [\<lparr>photo_id = 1, orientation = ''V'', tags = [Some ''c''], tagScore = 2\<rparr>,
                             \<lparr>photo_id = 2, orientation = ''V'', tags = [Some ''c'', Some ''d''], tagScore = 1\<rparr>],
            Slide.tags = [Some ''c'', Some ''d'']\<rparr>])"
    unfolding v h
    by (simp add: n createVerticalSlide_def createHorizontalSlide_def set_from_array_def set_add_def)
  moreover have "odd (length (filter (\<lambda>p. orientation p = ''V'') ?R))"
    unfolding v by simp
  moreover have "distinct (map photo_id ?R)" by simp
  ultimately show ?thesis by (intro conjI)
qed

text \<open>
  C6.  The file with the one photo line \<^verbatim>\<open>H 2 a a\<close> lists the tag \<^verbatim>\<open>a\<close> twice:
  the stored tag list keeps the duplicate, the id 0 is appended twice to the entry of
  \<^verbatim>\<open>a\<close>, and the list of \<^verbatim>\<open>a\<close> has length 2 although one photo carries the tag.
  The tag score of the photo is then 4.  The source says on \<^verbatim>\<open>allTags\<close> (lines
  27-28) that an entry holds the ids of all photos that have the tag, and on
  \<^verbatim>\<open>calculateTagScore\<close> (line 193) that the score of a tag is the number of photos that
  have that tag.
\<close>

theorem C6_duplicate_tag_registered_twice:
  "readFile (''1'' @ CHR 0x0A # ''H 2 a a'') reset =
     Some \<lparr>photos = [\<lparr>photo_id = 0, orientation = ''H'',
                        tags = [Some ''a'', Some ''a''], tagScore = 0\<rparr>],
           allTags = [(Some ''a'', \<lparr>tag = Some ''a'', photoIds = [0, 0]\<rparr>)]\<rparr>
   \<and> \<not> distinct [Some ''a'', Some ''a'']
   \<and> \<not> distinct [0::nat, 0]
   \<and> length [0::nat, 0] = 2
   \<and> length (filter (\<lambda>p. Some ''a'' \<in> set (Photo.tags p))
         [\<lparr>photo_id = 0, orientation = ''H'',
            tags = [Some ''a'', Some ''a''], tagScore = 0\<rparr>]) = 1
   \<and> calculateTagScore [(Some ''a'', \<lparr>tag = Some ''a'', photoIds = [0, 0]\<rparr>)]
         \<lparr>photo_id = 0, orientation = ''H'', tags = [Some ''a'', Some ''a''], tagScore = 0\<rparr> = 4"
  by (simp add: read_eval calculateTagScore_def)

text \<open>The four photos of the scenario of the specification: two photos carry \<^verbatim>\<open>a\<close>.\<close>

lemma tag_index_scenario:
  "readFile (''4'' @ CHR 0x0A # ''H 2 a b'' @ CHR 0x0A # ''V 1 c'' @ CHR 0x0A # ''V 1 c''
      @ CHR 0x0A # ''H 1 a'' @ [CHR 0x0A]) reset =
     Some \<lparr>photos =
             [\<lparr>photo_id = 0, orientation = ''H'', tags = [Some ''a'', Some ''b''], tagScore = 0\<rparr>,
              \<lparr>photo_id = 1, orientation = ''V'', tags = [Some ''c''], tagScore = 0\<rparr>,
              \<lparr>photo_id = 2, orientation = ''V'', tags = [Some ''c''], tagScore = 0\<rparr>,
              \<lparr>photo_id = 3, orientation = ''H'', tags = [Some ''a''], tagScore = 0\<rparr>],
           allTags =
             [(Some ''a'', \<lparr>tag = Some ''a'', photoIds = [0, 3]\<rparr>),
              (Some ''b'', \<lparr>tag = Some ''b'', photoIds = [0]\<rparr>),
              (Some ''c'', \<lparr>tag = Some ''c'', photoIds = [1, 2]\<rparr>)]\<rparr>
   \<and> card {p \<in> set
             [\<lparr>photo_id = 0, orientation = ''H'', tags = [Some ''a'', Some ''b''], tagScore = 0\<rparr>,
              \<lparr>photo_id = 1, orientation = ''V'', tags = [Some ''c''], tagScore = 0\<rparr>,
              \<lparr>photo_id = 2, orientation = ''V'', tags = [Some ''c''], tagScore = 0\<rparr>,
              \<lparr>photo_id = 3, orientation = ''H'', tags = [Some ''a''], tagScore = 0\<rparr>].
            Some ''a'' \<in> set (Photo.tags p)} = 2"
  (is "readFile ?data reset = Some ?g \<and> _")
proof -
  have r: "readFile ?data reset = Some ?g"
    by (simp add: read_eval)
  have d: "\<forall>p\<in>set (Globals.photos ?g). distinct (Photo.tags p)"
    by simp
  from tag_index_after_readFile [OF r] d
  have "popularity (allTags ?g) (Some ''a'') =
      int (card {p \<in> set (Globals.photos ?g). Some ''a'' \<in> set (Photo.tags p)})"
    by blast
  then have "card {p \<in> set (Globals.photos ?g). Some ''a'' \<in> set (Photo.tags p)} = 2"
    by (simp add: popularity_def)
  with r show ?thesis by simp
qed


text \<open>
  C8 as stated fails on a catalog with a photo that is neither \<^verbatim>\<open>H\<close> nor
  \<^verbatim>\<open>V\<close>: the file is read, the number of vertical photos is even, and photo 0 is
  in no slide.
\<close>

theorem C8_foreign_orientation_counterexample:
  "readFile (''1'' @ CHR 0x0A # ''X 0'') reset =
     Some \<lparr>photos = [\<lparr>photo_id = 0, orientation = ''X'', tags = [], tagScore = 0\<rparr>],
           allTags = []\<rparr>
   \<and> solve \<lparr>photos = [\<lparr>photo_id = 0, orientation = ''X'', tags = [], tagScore = 0\<rparr>],
             allTags = []\<rparr> =
     Inr ([], \<lparr>photos = [\<lparr>photo_id = 0, orientation = ''X'', tags = [], tagScore = 0\<rparr>],
                allTags = []\<rparr>)
   \<and> even (length (filter (\<lambda>p. orientation p = ''V'')
                [\<lparr>photo_id = 0, orientation = ''X'', tags = [], tagScore = 0\<rparr>]))
   \<and> occurrences 0 [] = 0"
  by (simp add: read_eval solve_def rankPhotos_def array_sort_def buildSlides_def
      verticalSlides_loop.simps occurrences_def)


text \<open>
  Two vertical photos and one horizontal photo: every id occurs in exactly one slide.
  Three vertical photos and one horizontal photo: one vertical photo is in no slide.
\<close>

theorem C8_partition_amended_witness:
  "(\<exists>sl g'. solve \<lparr>photos =
      [\<lparr>photo_id = 0, orientation = ''V'', tags = [Some ''c''], tagScore = 0\<rparr>,
       \<lparr>photo_id = 1, orientation = ''H'', tags = [Some ''a''], tagScore = 0\<rparr>,
       \<lparr>photo_id = 2, orientation = ''V'', tags = [Some ''c''], tagScore = 0\<rparr>],
       allTags = []\<rparr> = Inr (sl, g')
       \<and> occurrences 0 sl = 1 \<and> occurrences 1 sl = 1 \<and> occurrences 2 sl = 1)
   \<and> (\<exists>sl g'. solve \<lparr>photos =
      [\<lparr>photo_id = 0, orientation = ''V'', tags = [Some ''c''], tagScore = 0\<rparr>,
       \<lparr>photo_id = 1, orientation = ''H'', tags = [Some ''a''], tagScore = 0\<rparr>,
       \<lparr>photo_id = 2, orientation = ''V'', tags = [Some ''c''], tagScore = 0\<rparr>,
       \<lparr>photo_id = 3, orientation = ''V'', tags = [Some ''d''], tagScore = 0\<rparr>],
       allTags = []\<rparr> = Inr (sl, g')
       \<and> occurrences 1 sl = 1
       \<and> (occurrences 0 sl = 0 \<and> occurrences 2 sl = 1 \<and> occurrences 3 sl = 1
          \<or> occurrences 0 sl = 1 \<and> occurrences 2 sl = 0 \<and> occurrences 3 sl = 1
          \<or> occurrences 0 sl = 1 \<and> occurrences 2 sl = 1 \<and> occurrences 3 sl = 0))"
  (is "(\<exists>sl g'. solve ?g = _ \<and> _) \<and> (\<exists>sl g'. solve ?k = _ \<and> _)")
proof -
  have d: "distinct (map photo_id (Globals.photos ?g))" by simp
  have o: "\<forall>p\<in>set (Globals.photos ?g). orientation p = ''H'' \<or> orientation p = ''V''" by simp
  have e: "even (length (filter (\<lambda>p. orientation p = ''V'') (Globals.photos ?g)))" by simp
  from C8_partition_amended [OF d o] e
  obtain sl g' where s: "solve ?g = Inr (sl, g')"
    and a: "\<forall>i\<in>set (map photo_id (Globals.photos ?g)). occurrences i sl = 1"
    by blast
  from a have "occurrences 0 sl = 1 \<and> occurrences 1 sl = 1 \<and> occurrences 2 sl = 1" by simp
  with s have first: "\<exists>sl g'. solve ?g = Inr (sl, g')
       \<and> occurrences 0 sl = 1 \<and> occurrences 1 sl = 1 \<and> occurrences 2 sl = 1"
    by blast
  have d': "distinct (map photo_id (Globals.photos ?k))" by simp
  have o': "\<forall>p\<in>set (Globals.photos ?k). orientation p = ''H'' \<or> orientation p = ''V''" by simp
  have e': "odd (length (filter (\<lambda>p. orientation p = ''V'') (Globals.photos ?k)))" by simp
  from C8_partition_amended [OF d' o'] e'
  obtain sl' g'' where s': "solve ?k = Inr (sl', g'')"
    and a': "\<exists>d\<in>set (map photo_id (filter (\<lambda>p. orientation p = ''V'') (Globals.photos ?k))).
              occurrences d sl' = 0 \<and>
              (\<forall>i\<in>set (map photo_id (Globals.photos ?k)). i \<noteq> d \<longrightarrow> occurrences i sl' = 1)"
    by blast
  from a' have "occurrences 1 sl' = 1
       \<and> (occurrences 0 sl' = 0 \<and> occurrences 2 sl' = 1 \<and> occurrences 3 sl' = 1
          \<or> occurrences 0 sl' = 1 \<and> occurrences 2 sl' = 0 \<and> occurrences 3 sl' = 1
          \<or> occurrences 0 sl' = 1 \<and> occurrences 2 sl' = 1 \<and> occurrences 3 sl' = 0)"
    by auto
  with s' have second: "\<exists>sl g'. solve ?k = Inr (sl, g')
       \<and> occurrences 1 sl = 1
       \<and> (occurrences 0 sl = 0 \<and> occurrences 2 sl = 1 \<and> occurrences 3 sl = 1
          \<or> occurrences 0 sl = 1 \<and> occurrences 2 sl = 0 \<and> occurrences 3 sl = 1
          \<or> occurrences 0 sl = 1 \<and> occurrences 2 sl = 1 \<and> occurrences 3 sl = 0)"
    by blast
  from first second show ?thesis by (rule conjI)
qed

end
